theory Spec2Isabelle
  imports Complex_Main
begin

section \<open>Data model of server.js\<close>

text \<open>
  A WebSocket object is identified by a natural number (object identity, compared
  with \<open>===\<close> in the source). A room identifier is the value of \<open>uid()\<close>: the hex
  rendering of eight random bytes, always a non-empty (truthy) string, modelled by
  the number it encodes. Timestamps are \<open>Date.now()\<close> readings in milliseconds.
  JavaScript numbers are modelled by exact rationals.
\<close>

type_synonym ws = nat
type_synonym rid = nat
type_synonym time = int

text \<open>The values a preference field or a chat text can hold: absent, or a string.\<close>

datatype jsval = JUndefined | JStr string

fun truthy :: "jsval \<Rightarrow> bool" where
  "truthy JUndefined = False"
| "truthy (JStr s) = (s \<noteq> [])"

text \<open>\<open>v || "any"\<close>\<close>

definition or_any :: "jsval \<Rightarrow> jsval" where
  "or_any v = (if truthy v then v else JStr ''any'')"

record prefs =
  gender :: jsval
  level :: jsval

text \<open>Queue entries \<open>{ ws, prefs, enqueuedAt }\<close>.\<close>

record entry =
  ws :: ws
  prefs :: prefs
  enqueuedAt :: time

text \<open>Rooms \<open>{ a, b }\<close>.\<close>

record room =
  room_a :: ws
  room_b :: ws

text \<open>Client records \<open>{ id, roomId, state, prefs }\<close>; \<open>roomId\<close> is \<open>null\<close> or a room id.\<close>

record meta =
  cid :: nat
  roomId :: "rid option"
  state :: string
  mprefs :: prefs

text \<open>Messages the server sends.\<close>

datatype out =
    Hello nat
  | Searching
  | Canceled
  | Matched rid
  | ChatMsg string
  | PartnerLeft
  | Left

text \<open>
  The three global tables of the source, the \<open>readyState === OPEN\<close> flag of every
  socket, and the log of what \<open>ws.send\<close> was called with, oldest first.
\<close>

record server =
  queue :: "entry list"
  rooms :: "rid \<rightharpoonup> room"
  clients :: "ws \<rightharpoonup> meta"
  ready :: "ws \<Rightarrow> bool"
  outbox :: "(ws \<times> out) list"

section \<open>Helpers\<close>

definition safeSend :: "ws \<Rightarrow> out \<Rightarrow> server \<Rightarrow> server" where
  "safeSend w m s = (if ready s w then s\<lparr>outbox := outbox s @ [(w, m)]\<rparr> else s)"

text \<open>\<open>Array.prototype.findIndex\<close>, with \<open>None\<close> for \<open>-1\<close>.\<close>

fun findIndex :: "('a \<Rightarrow> bool) \<Rightarrow> 'a list \<Rightarrow> nat option" where
  "findIndex p [] = None"
| "findIndex p (x # xs) =
     (if p x then Some 0 else (case findIndex p xs of None \<Rightarrow> None | Some n \<Rightarrow> Some (Suc n)))"

text \<open>\<open>xs.splice(i, 1)\<close>; nothing is removed when \<open>i\<close> is past the end.\<close>

definition splice1 :: "nat \<Rightarrow> 'a list \<Rightarrow> 'a list" where
  "splice1 i xs = take i xs @ drop (Suc i) xs"

definition removeFromQueue :: "ws \<Rightarrow> server \<Rightarrow> server" where
  "removeFromQueue w s =
     (case findIndex (\<lambda>q. ws q = w) (queue s) of
        None \<Rightarrow> s
      | Some idx \<Rightarrow> s\<lparr>queue := splice1 idx (queue s)\<rparr>)"

text \<open>
  Mutation of the record object stored for \<open>w\<close>, if there is one. The source holds a
  reference to the object, so every write is seen by all later reads.
\<close>

definition upd_meta :: "ws \<Rightarrow> (meta \<Rightarrow> meta) \<Rightarrow> server \<Rightarrow> server" where
  "upd_meta w f s =
     (case clients s w of
        None \<Rightarrow> s
      | Some m \<Rightarrow> s\<lparr>clients := (clients s)(w \<mapsto> f m)\<rparr>)"

text \<open>\<open>meta.roomId = null; meta.state = "idle"\<close>\<close>

definition to_idle :: "meta \<Rightarrow> meta" where
  "to_idle m = m\<lparr>roomId := None, state := ''idle''\<rparr>"

text \<open>\<open>meta.roomId = roomId; meta.state = "chat"\<close>\<close>

definition to_chat :: "rid \<Rightarrow> meta \<Rightarrow> meta" where
  "to_chat r m = m\<lparr>roomId := Some r, state := ''chat''\<rparr>"

section \<open>leaveRoom\<close>

definition leaveRoom :: "ws \<Rightarrow> server \<Rightarrow> server" where
  "leaveRoom w s =
     (case clients s w of
        None \<Rightarrow> s
      | Some m \<Rightarrow>
         (case roomId m of
            None \<Rightarrow> s
          | Some r \<Rightarrow>
             (case rooms s r of
                None \<Rightarrow> upd_meta w to_idle s
              | Some rm \<Rightarrow>
                 let other = (if room_a rm = w then room_b rm else room_a rm);
                     s1 = (if ready s other
                           then safeSend other PartnerLeft (upd_meta other to_idle s)
                           else s);
                     s2 = s1\<lparr>rooms := (rooms s1)(r := None)\<rparr>
                 in upd_meta w to_idle s2)))"

section \<open>matchScore and tryMatch\<close>

definition matchScore :: "prefs \<Rightarrow> prefs \<Rightarrow> rat" where
  "matchScore p1 p2 =
     (let g1 = or_any (gender p1);
          g2 = or_any (gender p2);
          l1 = or_any (level p1);
          l2 = or_any (level p2);
          score = 0;
          score = (if g1 = g2 then score + 2 else score);
          score = (if l1 = l2 then score + 4 else score);
          score = (if l1 = JStr ''any'' \<or> l2 = JStr ''any'' then score + 1 else score);
          score = (if g1 = JStr ''any'' \<or> g2 = JStr ''any'' then score + 1 else score)
      in score)"

text \<open>
  The clock of one invocation of \<open>tryMatch\<close>: the two \<open>Date.now()\<close> readings taken
  in the loop body for the index pair \<open>(i, j)\<close>.
\<close>

type_synonym clock = "nat \<Rightarrow> nat \<Rightarrow> time \<times> time"

text \<open>
  The loop body up to \<open>total\<close>: \<open>None\<close> is \<open>continue\<close>. The \<open>isFinite(base)\<close> test
  never fails, since \<open>matchScore\<close> only adds constants to zero.
\<close>

definition pairTotal :: "clock \<Rightarrow> (ws \<Rightarrow> bool) \<Rightarrow> entry list \<Rightarrow> nat \<times> nat \<Rightarrow> rat option" where
  "pairTotal clk rdy q ij =
     (let A = q ! fst ij; B = q ! snd ij in
      if \<not> rdy (ws A) \<or> \<not> rdy (ws B) then None
      else
        let base = matchScore (prefs A) (prefs B);
            waitA = of_int (fst (clk (fst ij) (snd ij)) - enqueuedAt A) / 1000;
            waitB = of_int (snd (clk (fst ij) (snd ij)) - enqueuedAt B) / 1000;
            waitingBonus = min 10 ((waitA + waitB) / 6)
        in Some (base + waitingBonus))"

text \<open>\<open>if (!best || total > best.total) best = { i, j, total }\<close>\<close>

definition better :: "(nat \<times> nat \<Rightarrow> rat option) \<Rightarrow> ((nat \<times> nat) \<times> rat) option \<Rightarrow> nat \<times> nat
    \<Rightarrow> ((nat \<times> nat) \<times> rat) option" where
  "better sc best ij =
     (case sc ij of
        None \<Rightarrow> best
      | Some tot \<Rightarrow>
         (case best of
            None \<Rightarrow> Some (ij, tot)
          | Some b \<Rightarrow> if tot > snd b then Some (ij, tot) else best))"

text \<open>The index pairs in the order the two nested loops visit them.\<close>

definition indexPairs :: "nat \<Rightarrow> (nat \<times> nat) list" where
  "indexPairs n = concat (map (\<lambda>i. map (\<lambda>j. (i, j)) [Suc i..<n]) [0..<n])"

definition scan :: "clock \<Rightarrow> (ws \<Rightarrow> bool) \<Rightarrow> entry list \<Rightarrow> ((nat \<times> nat) \<times> rat) option" where
  "scan clk rdy q = foldl (better (pairTotal clk rdy q)) None (indexPairs (length q))"

definition tryMatch :: "rid \<Rightarrow> clock \<Rightarrow> server \<Rightarrow> server" where
  "tryMatch newId clk s =
     (if length (queue s) < 2 then s
      else
        (case scan clk (ready s) (queue s) of
           None \<Rightarrow> s
         | Some best \<Rightarrow>
            let i = fst (fst best); j = snd (fst best);
                A = queue s ! i; B = queue s ! j;
                s1 = s\<lparr>queue := splice1 i (splice1 j (queue s))\<rparr>;
                s2 = s1\<lparr>rooms := (rooms s1)(newId \<mapsto> \<lparr>room_a = ws A, room_b = ws B\<rparr>)\<rparr>;
                s3 = upd_meta (ws A) (to_chat newId) s2;
                s4 = upd_meta (ws B) (to_chat newId) s3;
                s5 = safeSend (ws A) (Matched newId) s4
            in safeSend (ws B) (Matched newId) s5))"

text \<open>
  The body of the \<open>setInterval\<close> callback: the backwards loop that splices every
  entry with a socket that is not open out of the queue, then \<open>tryMatch\<close>.
\<close>

definition purge :: "server \<Rightarrow> server" where
  "purge s = s\<lparr>queue := filter (\<lambda>e. ready s (ws e)) (queue s)\<rparr>"

definition tick :: "rid \<Rightarrow> clock \<Rightarrow> server \<Rightarrow> server" where
  "tick newId clk s = tryMatch newId clk (purge s)"

section \<open>Connection handlers\<close>

text \<open>
  A parsed request. \<open>Find g l\<close> carries \<open>msg.prefs?.gender\<close> and \<open>msg.prefs?.level\<close>,
  \<open>Chat t\<close> carries \<open>msg.text\<close>, \<open>Other\<close> is any other \<open>type\<close>.
\<close>

datatype msg = Find jsval jsval | Cancel | Chat jsval | Leave | Other

text \<open>\<open>String(msg.text || "")\<close>\<close>

fun textOf :: "jsval \<Rightarrow> string" where
  "textOf JUndefined = []"
| "textOf (JStr s) = s"

definition onConnection :: "ws \<Rightarrow> nat \<Rightarrow> server \<Rightarrow> server" where
  "onConnection w newId s =
     safeSend w (Hello newId)
       (s\<lparr>clients := (clients s)(w \<mapsto>
            \<lparr>cid = newId, roomId = None, state = ''idle'',
             mprefs = \<lparr>gender = JStr ''any'', level = JStr ''any''\<rparr>\<rparr>)\<rparr>)"

text \<open>The \<open>find\<close> branch up to the call of \<open>tryMatch\<close>, and the whole branch.\<close>

definition enqueueFind :: "ws \<Rightarrow> jsval \<Rightarrow> jsval \<Rightarrow> time \<Rightarrow> server \<Rightarrow> server" where
  "enqueueFind w g l now s =
     (let s1 = leaveRoom w s;
          s2 = removeFromQueue w s1;
          p = \<lparr>gender = or_any g, level = or_any l\<rparr>;
          s3 = upd_meta w (\<lambda>m. m\<lparr>mprefs := p, state := ''searching''\<rparr>) s2;
          s4 = s3\<lparr>queue := queue s3 @ [\<lparr>ws = w, prefs = p, enqueuedAt = now\<rparr>]\<rparr>
      in safeSend w Searching s4)"

definition onFind :: "ws \<Rightarrow> jsval \<Rightarrow> jsval \<Rightarrow> time \<Rightarrow> rid \<Rightarrow> clock \<Rightarrow> server \<Rightarrow> server" where
  "onFind w g l now newId clk s = tryMatch newId clk (enqueueFind w g l now s)"

definition onCancel :: "ws \<Rightarrow> server \<Rightarrow> server" where
  "onCancel w s =
     (let s1 = removeFromQueue w s;
          s2 = upd_meta w (\<lambda>m. m\<lparr>state := ''idle''\<rparr>) s1
      in safeSend w Canceled s2)"

definition onChat :: "ws \<Rightarrow> jsval \<Rightarrow> server \<Rightarrow> server" where
  "onChat w t s =
     (case clients s w of
        None \<Rightarrow> s
      | Some m \<Rightarrow>
         (case roomId m of
            None \<Rightarrow> s
          | Some r \<Rightarrow>
             (case rooms s r of
                None \<Rightarrow> s
              | Some rm \<Rightarrow>
                 let other = (if room_a rm = w then room_b rm else room_a rm) in
                 if \<not> ready s other then leaveRoom w (safeSend w PartnerLeft s)
                 else safeSend other (ChatMsg (textOf t)) s)))"

definition onLeave :: "ws \<Rightarrow> server \<Rightarrow> server" where
  "onLeave w s =
     (let s1 = leaveRoom w s;
          s2 = removeFromQueue w s1;
          s3 = upd_meta w (\<lambda>m. m\<lparr>state := ''idle''\<rparr>) s2
      in safeSend w Left s3)"

text \<open>
  The \<open>message\<close> handler; \<open>None\<close> is a payload on which \<open>JSON.parse\<close> throws. The time,
  the fresh id and the clock are what \<open>Date.now()\<close> and \<open>uid()\<close> return during the call.
\<close>

definition onMessage :: "ws \<Rightarrow> msg option \<Rightarrow> time \<Rightarrow> rid \<Rightarrow> clock \<Rightarrow> server \<Rightarrow> server" where
  "onMessage w raw now newId clk s =
     (case raw of
        None \<Rightarrow> s
      | Some m \<Rightarrow>
         (case clients s w of
            None \<Rightarrow> s
          | Some _ \<Rightarrow>
             (case m of
                Find g l \<Rightarrow> onFind w g l now newId clk s
              | Cancel \<Rightarrow> onCancel w s
              | Chat t \<Rightarrow> onChat w t s
              | Leave \<Rightarrow> onLeave w s
              | Other \<Rightarrow> s)))"

definition onClose :: "ws \<Rightarrow> server \<Rightarrow> server" where
  "onClose w s =
     (let s1 = removeFromQueue w s;
          s2 = leaveRoom w s1
      in s2\<lparr>clients := (clients s2)(w := None)\<rparr>)"

section \<open>The server as a transition system\<close>

text \<open>
  An event is one callback run to completion, or a socket leaving the \<open>OPEN\<close> state.
  A \<open>connection\<close> event brings a socket that is not registered and is open.
\<close>

datatype event =
    Connection ws nat
  | Message ws "msg option" time rid clock
  | Close ws
  | Tick rid clock
  | Drop ws

definition init :: server where
  "init = \<lparr>queue = [], rooms = Map.empty, clients = Map.empty,
           ready = (\<lambda>_. False), outbox = []\<rparr>"

fun enabled :: "event \<Rightarrow> server \<Rightarrow> bool" where
  "enabled (Connection w i) s = (clients s w = None)"
| "enabled _ s = True"

fun step :: "event \<Rightarrow> server \<Rightarrow> server" where
  "step (Connection w i) s = onConnection w i (s\<lparr>ready := (ready s)(w := True)\<rparr>)"
| "step (Message w raw now newId clk) s = onMessage w raw now newId clk s"
| "step (Close w) s = onClose w s"
| "step (Tick newId clk) s = tick newId clk s"
| "step (Drop w) s = s\<lparr>ready := (ready s)(w := False)\<rparr>"

inductive reachable :: "server \<Rightarrow> bool" where
  reachable_init: "reachable init"
| reachable_step: "reachable s \<Longrightarrow> enabled e s \<Longrightarrow> reachable (step e s)"

definition inPool :: "server \<Rightarrow> ws \<Rightarrow> bool" where
  "inPool s w = (w \<in> ws ` set (queue s))"

definition inRoom :: "server \<Rightarrow> ws \<Rightarrow> bool" where
  "inRoom s w = (\<exists>r rm. rooms s r = Some rm \<and> (room_a rm = w \<or> room_b rm = w))"

section \<open>Orders and predicates used in the statements\<close>

text \<open>The order in which the nested loops of \<open>tryMatch\<close> visit index pairs.\<close>

definition lexlt :: "nat \<times> nat \<Rightarrow> nat \<times> nat \<Rightarrow> bool" where
  "lexlt p q = (fst p < fst q \<or> (fst p = fst q \<and> snd p < snd q))"

text \<open>
  \<open>best\<close> is the first pair of greatest total among the pairs \<open>S\<close>: no pair of \<open>S\<close>
  has a greater total, and every pair visited before it has a smaller one.
\<close>

definition firstMax :: "(nat \<times> nat \<Rightarrow> rat option) \<Rightarrow> (nat \<times> nat) set
    \<Rightarrow> ((nat \<times> nat) \<times> rat) option \<Rightarrow> bool" where
  "firstMax sc S best =
     (case best of
        None \<Rightarrow> (\<forall>x\<in>S. sc x = None)
      | Some b \<Rightarrow> fst b \<in> S \<and> sc (fst b) = Some (snd b) \<and>
          (\<forall>x\<in>S. \<forall>u. sc x = Some u \<longrightarrow> u \<le> snd b \<and> (lexlt x (fst b) \<longrightarrow> u < snd b)))"

text \<open>Both fields of a preference object hold a truthy value.\<close>

definition prefsSet :: "prefs \<Rightarrow> bool" where
  "prefsSet p = (truthy (gender p) \<and> truthy (level p))"

text \<open>
  The invariant of the three tables: no socket has two queue entries; every queued
  socket is registered and was queued with both preference fields set; the two members
  of a room differ, are registered, point to that room and are not queued; and every
  state is one of the three strings the source assigns.
\<close>

definition queueOk :: "server \<Rightarrow> bool" where
  "queueOk s = (distinct (map ws (queue s)) \<and>
     (\<forall>e\<in>set (queue s). clients s (ws e) \<noteq> None \<and> prefsSet (prefs e)))"

definition memberOk :: "server \<Rightarrow> rid \<Rightarrow> ws \<Rightarrow> bool" where
  "memberOk s r w = ((\<exists>m. clients s w = Some m \<and> roomId m = Some r) \<and> \<not> inPool s w)"

definition roomsOk :: "server \<Rightarrow> bool" where
  "roomsOk s = (\<forall>r rm. rooms s r = Some rm \<longrightarrow>
     room_a rm \<noteq> room_b rm \<and> memberOk s r (room_a rm) \<and> memberOk s r (room_b rm))"

definition statesOk :: "server \<Rightarrow> bool" where
  "statesOk s = (\<forall>w m. clients s w = Some m \<longrightarrow>
     state m = ''idle'' \<or> state m = ''searching'' \<or> state m = ''chat'')"

definition Inv :: "server \<Rightarrow> bool" where
  "Inv s = (queueOk s \<and> roomsOk s \<and> statesOk s)"

text \<open>The record of \<open>w\<close> is in state \<open>chat\<close> and points to room \<open>r\<close>.\<close>

definition chatting :: "server \<Rightarrow> rid \<Rightarrow> ws \<Rightarrow> bool" where
  "chatting s r w = (\<exists>m. clients s w = Some m \<and> state m = ''chat'' \<and> roomId m = Some r)"

section \<open>Example runs\<close>

definition clk0 :: clock where
  "clk0 i j = (9000, 9000)"

definition pAny :: prefs where
  "pAny = \<lparr>gender = JStr ''any'', level = JStr ''any''\<rparr>"

text \<open>Two connections, registered and idle.\<close>

definition s_two :: server where
  "s_two = step (Connection 2 21) (step (Connection 1 20) init)"

text \<open>Connection 1 has sent \<open>find\<close> and waits.\<close>

definition s_wait :: server where
  "s_wait = step (Message 1 (Some (Find JUndefined JUndefined)) 1000 30 clk0) s_two"

text \<open>Connection 2 has sent \<open>find\<close> too; both are in room 31.\<close>

definition s_chat :: server where
  "s_chat = step (Message 2 (Some (Find JUndefined (JStr ''''))) 3000 31 clk0) s_wait"

text \<open>As \<open>s_chat\<close>, after the transport of connection 2 has stopped being open.\<close>

definition s_gone :: server where
  "s_gone = step (Drop 2) s_chat"

text \<open>As \<open>s_wait\<close>, after the transport of the waiting connection 1 has stopped being open.\<close>

definition s_dead :: server where
  "s_dead = step (Drop 1) s_wait"

text \<open>A pool of three waiting connections with open transports, built by hand.\<close>

definition e_a :: entry where
  "e_a = \<lparr>ws = 1, prefs = \<lparr>gender = JStr ''male'', level = JStr ''any''\<rparr>, enqueuedAt = 1000\<rparr>"

definition e_b :: entry where
  "e_b = \<lparr>ws = 2, prefs = \<lparr>gender = JStr ''male'', level = JStr ''beginner''\<rparr>, enqueuedAt = 3000\<rparr>"

definition e_c :: entry where
  "e_c = \<lparr>ws = 3, prefs = \<lparr>gender = JStr ''male'', level = JStr ''advanced''\<rparr>, enqueuedAt = 3000\<rparr>"

definition m_searching :: "nat \<Rightarrow> entry \<Rightarrow> meta" where
  "m_searching i e = \<lparr>cid = i, roomId = None, state = ''searching'', mprefs = prefs e\<rparr>"

definition s_pool3 :: server where
  "s_pool3 = \<lparr>queue = [e_a, e_b, e_c], rooms = Map.empty,
     clients = [1 \<mapsto> m_searching 20 e_a, 2 \<mapsto> m_searching 21 e_b, 3 \<mapsto> m_searching 22 e_c],
     ready = (\<lambda>_. True), outbox = []\<rparr>"

section \<open>Field lemmas for the helpers\<close>

lemma safeSend_fields [simp]:
  "queue (safeSend w m s) = queue s"
  "rooms (safeSend w m s) = rooms s"
  "clients (safeSend w m s) = clients s"
  "ready (safeSend w m s) = ready s"
  by (simp_all add: safeSend_def)

lemma safeSend_outbox:
  "outbox (safeSend w m s) = outbox s @ (if ready s w then [(w, m)] else [])"
  by (simp add: safeSend_def)

lemma upd_meta_fields [simp]:
  "queue (upd_meta w f s) = queue s"
  "rooms (upd_meta w f s) = rooms s"
  "ready (upd_meta w f s) = ready s"
  "outbox (upd_meta w f s) = outbox s"
  by (simp_all add: upd_meta_def split: option.splits)

lemma upd_meta_clients_at [simp]:
  "clients (upd_meta w f s) v = (if v = w then map_option f (clients s w) else clients s v)"
  by (simp add: upd_meta_def split: option.splits)

lemma upd_meta_clients:
  "clients (upd_meta w f s) = (\<lambda>v. if v = w then map_option f (clients s w) else clients s v)"
  by (rule ext) simp

section \<open>leaveRoom\<close>

lemma leaveRoom_cleared:
  "clients (leaveRoom w s) w = Some m \<Longrightarrow> roomId m = None"
  by (auto simp: leaveRoom_def Let_def to_idle_def split: option.splits if_splits)

lemma leaveRoom_noroom:
  "(\<forall>m. clients s w = Some m \<longrightarrow> roomId m = None) \<Longrightarrow> leaveRoom w s = s"
  by (auto simp: leaveRoom_def split: option.splits)

text \<open>
  C9. A second \<open>leaveRoom\<close> on the same connection returns the state the first call
  left, whole: no record, no room and no message differs. On a connection that is not
  registered or holds no room reference, \<open>leaveRoom\<close> returns the state it was given.
\<close>

theorem leaveRoom_twice:
  "leaveRoom w (leaveRoom w s) = leaveRoom w s \<and>
   ((\<forall>m. clients s w = Some m \<longrightarrow> roomId m = None) \<longrightarrow> leaveRoom w s = s)"
proof
  show "leaveRoom w (leaveRoom w s) = leaveRoom w s"
    by (rule leaveRoom_noroom) (auto dest: leaveRoom_cleared)
  show "(\<forall>m. clients s w = Some m \<longrightarrow> roomId m = None) \<longrightarrow> leaveRoom w s = s"
    by (simp add: leaveRoom_noroom)
qed

theorem leaveRoom_twice_witness:
  "leaveRoom 1 (leaveRoom 1 s_chat) = leaveRoom 1 s_chat \<and>
   outbox (leaveRoom 1 s_chat) = outbox s_chat @ [(2, PartnerLeft)] \<and>
   outbox (leaveRoom 1 (leaveRoom 1 s_chat)) = outbox s_chat @ [(2, PartnerLeft)] \<and>
   map_option roomId (clients s_two 1) = Some None \<and>
   leaveRoom 1 s_two = s_two"
proof -
  have a: "outbox (leaveRoom 1 s_chat) = outbox s_chat @ [(2, PartnerLeft)]"
    by code_simp
  have b: "map_option roomId (clients s_two 1) = Some None"
    by code_simp
  then have c: "\<forall>m. clients s_two 1 = Some m \<longrightarrow> roomId m = None"
    by auto
  from a b c leaveRoom_twice [of 1 s_chat] leaveRoom_twice [of 1 s_two]
  show ?thesis by simp
qed

lemma leaveRoom_fields [simp]:
  "queue (leaveRoom w s) = queue s"
  "ready (leaveRoom w s) = ready s"
  by (simp_all add: leaveRoom_def Let_def split: option.splits)

text \<open>
  C10. \<open>leaveRoom\<close> for a connection whose room partner is registered but whose
  transport is not open: the room is deleted, the leaving connection becomes idle
  without a room reference, nothing is sent, and the partner's record is the one it
  was, so a partner that pointed to the room still points to it though the room is
  gone. A later \<open>leaveRoom\<close> of the partner itself resets that record.
\<close>

theorem leaveRoom_partner_not_open:
  assumes "clients s w = Some m" and "roomId m = Some r" and "rooms s r = Some rm"
    and "other = (if room_a rm = w then room_b rm else room_a rm)"
    and "other \<noteq> w" and "\<not> ready s other" and "clients s other = Some om"
  shows "rooms (leaveRoom w s) = (rooms s)(r := None) \<and>
         clients (leaveRoom w s) w = Some (m\<lparr>roomId := None, state := ''idle''\<rparr>) \<and>
         clients (leaveRoom w s) other = Some om \<and>
         outbox (leaveRoom w s) = outbox s \<and>
         (roomId om = Some r \<longrightarrow>
            rooms (leaveRoom w s) r = None \<and>
            clients (leaveRoom other (leaveRoom w s)) other =
              Some (om\<lparr>roomId := None, state := ''idle''\<rparr>))"
proof -
  let ?s' = "leaveRoom w s"
  have r: "rooms ?s' = (rooms s)(r := None)"
    using assms by (simp add: leaveRoom_def Let_def)
  have cw: "clients ?s' w = Some (m\<lparr>roomId := None, state := ''idle''\<rparr>)"
    using assms by (simp add: leaveRoom_def Let_def to_idle_def)
  have co: "clients ?s' other = Some om"
    using assms by (simp add: leaveRoom_def Let_def)
  have ob: "outbox ?s' = outbox s"
    using assms by (simp add: leaveRoom_def Let_def)
  have "clients (leaveRoom other ?s') other = Some (om\<lparr>roomId := None, state := ''idle''\<rparr>)"
    if "roomId om = Some r"
    using that co r by (simp add: leaveRoom_def [of other] to_idle_def)
  with r cw co ob show ?thesis by simp
qed

theorem leaveRoom_partner_not_open_witness:
  "map_option roomId (clients s_gone 1) = Some (Some 31) \<and>
   rooms s_gone 31 = Some \<lparr>room_a = 1, room_b = 2\<rparr> \<and>
   \<not> ready s_gone 2 \<and>
   rooms (leaveRoom 1 s_gone) 31 = None \<and>
   map_option state (clients (leaveRoom 1 s_gone) 1) = Some ''idle'' \<and>
   map_option state (clients (leaveRoom 1 s_gone) 2) = Some ''chat'' \<and>
   map_option roomId (clients (leaveRoom 1 s_gone) 2) = Some (Some 31) \<and>
   map_option roomId (clients (leaveRoom 2 (leaveRoom 1 s_gone)) 2) = Some None"
proof -
  let ?m = "\<lparr>cid = 20, roomId = Some 31, state = ''chat'',
             mprefs = \<lparr>gender = JStr ''any'', level = JStr ''any''\<rparr>\<rparr>"
  let ?om = "\<lparr>cid = 21, roomId = Some 31, state = ''chat'',
              mprefs = \<lparr>gender = JStr ''any'', level = JStr ''any''\<rparr>\<rparr>"
  have m: "clients s_gone 1 = Some ?m"
    by code_simp
  have om: "clients s_gone 2 = Some ?om"
    by code_simp
  have rm: "rooms s_gone 31 = Some \<lparr>room_a = 1, room_b = 2\<rparr>"
    by code_simp
  have nr: "\<not> ready s_gone 2"
    by code_simp
  from leaveRoom_partner_not_open [of s_gone 1 ?m 31 "\<lparr>room_a = 1, room_b = 2\<rparr>" 2 ?om] nr m om rm
  show ?thesis by simp
qed

section \<open>removeFromQueue\<close>

lemma removeFromQueue_fields [simp]:
  "rooms (removeFromQueue w s) = rooms s"
  "clients (removeFromQueue w s) = clients s"
  "ready (removeFromQueue w s) = ready s"
  "outbox (removeFromQueue w s) = outbox s"
  by (simp_all add: removeFromQueue_def split: option.splits)

lemma findIndex_None: "findIndex p xs = None \<longleftrightarrow> (\<forall>x\<in>set xs. \<not> p x)"
  by (induction xs) (auto split: option.splits)

lemma removeFromQueue_absent: "\<not> inPool s w \<Longrightarrow> removeFromQueue w s = s"
proof -
  assume "\<not> inPool s w"
  then have "findIndex (\<lambda>q. ws q = w) (queue s) = None"
    by (auto simp: inPool_def findIndex_None)
  then show ?thesis by (simp add: removeFromQueue_def)
qed

section \<open>The chat and cancel handlers\<close>

text \<open>
  C8. A \<open>chat\<close> request carrying the string \<open>txt\<close>, from a connection with an open
  transport whose record points to an existing room. When the partner's transport is
  open, the only change is one more sent message: a chat message with \<open>txt\<close> to the
  partner. When it is not open, the only message sent is \<open>partner_left\<close> to the sender,
  the room is deleted and the sender becomes idle without a room reference.
\<close>

theorem chat_relay_or_teardown:
  assumes "clients s w = Some m" and "roomId m = Some r" and "rooms s r = Some rm"
    and "other = (if room_a rm = w then room_b rm else room_a rm)"
    and "ready s w"
    and "s' = onMessage w (Some (Chat (JStr txt))) now newId clk s"
  shows "(ready s other \<longrightarrow> s' = s\<lparr>outbox := outbox s @ [(other, ChatMsg txt)]\<rparr>) \<and>
         (\<not> ready s other \<longrightarrow>
            outbox s' = outbox s @ [(w, PartnerLeft)] \<and>
            rooms s' = (rooms s)(r := None) \<and>
            clients s' w = Some (m\<lparr>roomId := None, state := ''idle''\<rparr>) \<and>
            (\<forall>v. v \<noteq> w \<longrightarrow> clients s' v = clients s v) \<and>
            queue s' = queue s)"
proof (cases "ready s other")
  case True
  with assms show ?thesis
    by (simp add: onMessage_def onChat_def Let_def safeSend_def)
next
  case False
  let ?t = "safeSend w PartnerLeft s"
  from assms False have s': "s' = leaveRoom w ?t"
    by (simp add: onMessage_def onChat_def Let_def)
  from assms have t: "clients ?t w = Some m" "rooms ?t r = Some rm" "outbox ?t = outbox s @ [(w, PartnerLeft)]"
    by (simp_all add: safeSend_outbox)
  from assms False have nr: "\<not> ready ?t other" by simp
  have "outbox s' = outbox s @ [(w, PartnerLeft)]"
    using s' t nr assms(2,4) by (simp add: leaveRoom_def Let_def)
  moreover have "rooms s' = (rooms s)(r := None)"
    using s' t nr assms(2,4) by (simp add: leaveRoom_def Let_def)
  moreover have "clients s' w = Some (m\<lparr>roomId := None, state := ''idle''\<rparr>)"
    using s' t nr assms(2,4) by (simp add: leaveRoom_def Let_def to_idle_def)
  moreover have "\<forall>v. v \<noteq> w \<longrightarrow> clients s' v = clients s v"
    using s' t nr assms(2,4) by (simp add: leaveRoom_def Let_def)
  moreover have "queue s' = queue s"
    using s' by simp
  ultimately show ?thesis using False by simp
qed

theorem chat_relay_or_teardown_witness:
  "ready s_chat 1 \<and> ready s_chat 2 \<and> \<not> ready s_gone 2 \<and>
   onMessage 1 (Some (Chat (JStr ''hi''))) 9500 32 clk0 s_chat =
     s_chat\<lparr>outbox := outbox s_chat @ [(2, ChatMsg ''hi'')]\<rparr> \<and>
   outbox (onMessage 1 (Some (Chat (JStr ''hi''))) 9500 32 clk0 s_gone) =
     outbox s_gone @ [(1, PartnerLeft)] \<and>
   rooms (onMessage 1 (Some (Chat (JStr ''hi''))) 9500 32 clk0 s_gone) 31 = None \<and>
   map_option state (clients (onMessage 1 (Some (Chat (JStr ''hi''))) 9500 32 clk0 s_gone) 1) =
     Some ''idle''"
proof -
  let ?m = "\<lparr>cid = 20, roomId = Some 31, state = ''chat'',
             mprefs = \<lparr>gender = JStr ''any'', level = JStr ''any''\<rparr>\<rparr>"
  let ?rm = "\<lparr>room_a = 1, room_b = 2\<rparr>"
  have c: "clients s_chat 1 = Some ?m" "rooms s_chat 31 = Some ?rm" "ready s_chat 1" "ready s_chat 2"
    by code_simp+
  have g: "clients s_gone 1 = Some ?m" "rooms s_gone 31 = Some ?rm" "ready s_gone 1" "\<not> ready s_gone 2"
    by code_simp+
  from chat_relay_or_teardown [of s_chat 1 ?m 31 ?rm 2 _ "''hi''" 9500 32 clk0, OF c(1) _ c(2) _ c(3) refl]
    chat_relay_or_teardown [of s_gone 1 ?m 31 ?rm 2 _ "''hi''" 9500 32 clk0, OF g(1) _ g(2) _ g(3) refl]
    c g
  show ?thesis by simp
qed

text \<open>
  C4, as stated, fails: connection 1 of \<open>s_chat\<close> is in state \<open>chat\<close>, not
  \<open>searching\<close>, and its \<open>cancel\<close> request changes its state to \<open>idle\<close>.
\<close>

theorem cancel_not_noop_counterexample:
  "map_option state (clients s_chat 1) = Some ''chat'' \<and>
   map_option state (clients (onMessage 1 (Some Cancel) 9500 32 clk0 s_chat) 1) = Some ''idle''"
  by code_simp

text \<open>
  C4, amended. A \<open>cancel\<close> request of a registered connection sets the state of that
  connection to \<open>idle\<close> and changes nothing else of its record (its room reference and
  preferences stay); the rooms and every other connection's record are unchanged; the
  only message sent is \<open>canceled\<close> to the connection, when its transport is open; the
  pool is unchanged when it holds no entry of the connection.
\<close>

theorem cancel_effect:
  assumes "clients s w = Some m"
    and "s' = onMessage w (Some Cancel) now newId clk s"
  shows "clients s' w = Some (m\<lparr>state := ''idle''\<rparr>) \<and>
         (\<forall>v. v \<noteq> w \<longrightarrow> clients s' v = clients s v) \<and>
         rooms s' = rooms s \<and>
         ready s' = ready s \<and>
         outbox s' = outbox s @ (if ready s w then [(w, Canceled)] else []) \<and>
         (\<not> inPool s w \<longrightarrow> queue s' = queue s)"
proof -
  from assms have s': "s' = onCancel w s"
    by (simp add: onMessage_def)
  have "queue s' = queue s" if "\<not> inPool s w"
    using s' removeFromQueue_absent [OF that] by (simp add: onCancel_def Let_def)
  with s' assms(1) show ?thesis
    by (simp add: onCancel_def Let_def safeSend_outbox)
qed

theorem cancel_effect_witness:
  "\<not> inPool s_chat 1 \<and>
   clients (onMessage 1 (Some Cancel) 9500 32 clk0 s_chat) 1 =
     Some \<lparr>cid = 20, roomId = Some 31, state = ''idle'',
           mprefs = \<lparr>gender = JStr ''any'', level = JStr ''any''\<rparr>\<rparr> \<and>
   clients (onMessage 1 (Some Cancel) 9500 32 clk0 s_chat) 2 = clients s_chat 2 \<and>
   rooms (onMessage 1 (Some Cancel) 9500 32 clk0 s_chat) = rooms s_chat \<and>
   outbox (onMessage 1 (Some Cancel) 9500 32 clk0 s_chat) = outbox s_chat @ [(1, Canceled)] \<and>
   queue (onMessage 1 (Some Cancel) 9500 32 clk0 s_chat) = queue s_chat"
proof -
  let ?m = "\<lparr>cid = 20, roomId = Some 31, state = ''chat'',
             mprefs = \<lparr>gender = JStr ''any'', level = JStr ''any''\<rparr>\<rparr>"
  have c: "clients s_chat 1 = Some ?m" "ready s_chat 1"
    by code_simp+
  have q: "queue s_chat = []"
    by code_simp
  then have p: "\<not> inPool s_chat 1"
    by (simp add: inPool_def)
  from cancel_effect [of s_chat 1 ?m _ 9500 32 clk0, OF c(1) refl] c p
  show ?thesis by simp
qed

section \<open>The scan of tryMatch\<close>

lemma lexlt_asym: "lexlt p q \<Longrightarrow> \<not> lexlt q p"
  by (auto simp: lexlt_def)

lemma firstMax_better:
  assumes fm: "firstMax sc S best" and later: "\<forall>y\<in>S. lexlt y x"
  shows "firstMax sc (insert x S) (better sc best x)"
proof (cases "sc x")
  case None
  with fm show ?thesis
    by (auto simp: firstMax_def better_def split: option.splits)
next
  case (Some u)
  show ?thesis
  proof (cases best)
    case None
    with fm Some show ?thesis
      by (auto simp: firstMax_def better_def lexlt_def)
  next
    case (Some b)
    note b = this
    show ?thesis
    proof (cases "u > snd b")
      case True
      with fm b \<open>sc x = Some u\<close> show ?thesis
        by (fastforce simp: firstMax_def better_def lexlt_def)
    next
      case False
      from fm b have "fst b \<in> S" by (simp add: firstMax_def)
      with later have "lexlt (fst b) x" by blast
      then have "\<not> lexlt x (fst b)" by (rule lexlt_asym)
      with False fm b \<open>sc x = Some u\<close> show ?thesis
        by (auto simp: firstMax_def better_def)
    qed
  qed
qed

lemma firstMax_foldl:
  "sorted_wrt lexlt xs \<Longrightarrow> firstMax sc (set xs) (foldl (better sc) None xs)"
proof (induction xs rule: rev_induct)
  case Nil
  show ?case by (simp add: firstMax_def)
next
  case (snoc x xs)
  from snoc.prems have s: "sorted_wrt lexlt xs" and l: "\<forall>y\<in>set xs. lexlt y x"
    by (auto simp: sorted_wrt_append)
  from firstMax_better [OF snoc.IH [OF s] l] show ?case
    by (simp add: insert_commute)
qed

lemma set_indexPairs: "set (indexPairs n) = {(i, j). i < j \<and> j < n}"
proof -
  have "(a, b) \<in> set (indexPairs n) \<longleftrightarrow> a < b \<and> b < n" for a b
    by (auto simp: indexPairs_def image_iff)
  then show ?thesis by auto
qed

lemma sorted_indexPairs_upto:
  "sorted_wrt lexlt (concat (map (\<lambda>i. map (\<lambda>j. (i, j)) [Suc i..<n]) [0..<m]))"
proof (induction m)
  case 0
  show ?case by simp
next
  case (Suc m)
  have row: "sorted_wrt lexlt (map (\<lambda>j. (m, j)) [Suc m..<n])"
    by (simp add: sorted_wrt_map lexlt_def)
  have cross: "lexlt x y"
    if "x \<in> set (concat (map (\<lambda>i. map (\<lambda>j. (i, j)) [Suc i..<n]) [0..<m]))"
      and "y \<in> set (map (\<lambda>j. (m, j)) [Suc m..<n])" for x y
    using that by (auto simp: lexlt_def)
  from Suc row cross show ?case
    by (simp add: sorted_wrt_append)
qed

lemma sorted_indexPairs: "sorted_wrt lexlt (indexPairs n)"
  unfolding indexPairs_def by (rule sorted_indexPairs_upto)

lemma scan_firstMax:
  "firstMax (pairTotal clk rdy q) {(i, j). i < j \<and> j < length q} (scan clk rdy q)"
  unfolding scan_def
  using firstMax_foldl [OF sorted_indexPairs, of "pairTotal clk rdy q" "length q"]
  by (simp add: set_indexPairs)

lemma scan_Some:
  assumes "scan clk rdy q = Some ((i, j), t)"
  shows "i < j" and "j < length q" and "pairTotal clk rdy q (i, j) = Some t"
  using scan_firstMax [of clk rdy q] assms by (auto simp: firstMax_def)


lemma scan_None:
  assumes "scan clk rdy q = None" and "i < j" and "j < length q"
  shows "pairTotal clk rdy q (i, j) = None"
  using scan_firstMax [of clk rdy q] assms by (auto simp: firstMax_def)

lemma pairTotal_Some_ready:
  "pairTotal clk rdy q (i, j) = Some t \<Longrightarrow> rdy (ws (q ! i)) \<and> rdy (ws (q ! j))"
  by (auto simp: pairTotal_def Let_def split: if_splits)

lemma tryMatch_None: "scan clk (ready s) (queue s) = None \<Longrightarrow> tryMatch newId clk s = s"
  by (simp add: tryMatch_def)

lemma tryMatch_Some:
  assumes "scan clk (ready s) (queue s) = Some ((i, j), t)"
  shows "tryMatch newId clk s =
    safeSend (ws (queue s ! j)) (Matched newId)
      (safeSend (ws (queue s ! i)) (Matched newId)
        (upd_meta (ws (queue s ! j)) (to_chat newId)
          (upd_meta (ws (queue s ! i)) (to_chat newId)
            (s\<lparr>queue := splice1 i (splice1 j (queue s)),
               rooms := (rooms s)(newId \<mapsto> \<lparr>room_a = ws (queue s ! i), room_b = ws (queue s ! j)\<rparr>)\<rparr>))))"
proof -
  from scan_Some [OF assms] have "\<not> length (queue s) < 2" by simp
  with assms show ?thesis by (simp add: tryMatch_def Let_def)
qed

lemma tryMatch_Some_fields:
  assumes "scan clk (ready s) (queue s) = Some ((i, j), t)"
  shows "queue (tryMatch newId clk s) = splice1 i (splice1 j (queue s))"
    and "rooms (tryMatch newId clk s) =
           (rooms s)(newId \<mapsto> \<lparr>room_a = ws (queue s ! i), room_b = ws (queue s ! j)\<rparr>)"
    and "ready (tryMatch newId clk s) = ready s"
  by (simp_all add: tryMatch_Some [OF assms])

lemma length_splice1: "i < length xs \<Longrightarrow> Suc (length (splice1 i xs)) = length xs"
  by (simp add: splice1_def)

lemma nth_splice1_below: "i < j \<Longrightarrow> j < length xs \<Longrightarrow> splice1 j xs ! i = xs ! i"
  by (simp add: splice1_def nth_append)



section \<open>The score of a pair\<close>

lemma or_any_truthy: "truthy v \<Longrightarrow> or_any v = v"
  by (simp add: or_any_def)

lemma truthy_or_any: "truthy (or_any v)"
  by (simp add: or_any_def)

lemma matchScore_set:
  assumes "prefsSet p1" and "prefsSet p2"
  shows "matchScore p1 p2 =
    (if gender p1 = gender p2 then 2 else 0) +
    (if level p1 = level p2 then 4 else 0) +
    (if gender p1 = JStr ''any'' \<or> gender p2 = JStr ''any'' then 1 else 0) +
    (if level p1 = JStr ''any'' \<or> level p2 = JStr ''any'' then 1 else 0)"
  using assms by (simp add: matchScore_def prefsSet_def or_any_truthy Let_def)

text \<open>
  C1. For the pair of queue entries \<open>A\<close>, \<open>B\<close> at the indices \<open>i < j\<close>, both with open
  sockets and with both preference fields set (as in every entry the \<open>find\<close> branch
  builds), the loop body computes \<open>total = base + waitBonus\<close>: \<open>base\<close> is 2 for equal
  gender fields, plus 4 for equal level fields, plus 1 if a gender field is \<open>any\<close>, plus
  1 if a level field is \<open>any\<close>; \<open>waitBonus\<close> is the smaller of 10 and a sixth of the sum
  of the two waits in seconds, each from the entry's enqueue time to the clock reading
  taken for it. A pair the scan selects carries that total.
\<close>

theorem pairTotal_formula:
  assumes "i < j" and "j < length q" and "A = q ! i" and "B = q ! j"
    and "rdy (ws A)" and "rdy (ws B)"
    and "prefsSet (prefs A)" and "prefsSet (prefs B)"
    and "clk i j = (nowA, nowB)"
    and "base =
      (if gender (prefs A) = gender (prefs B) then 2 else 0) +
      (if level (prefs A) = level (prefs B) then 4 else 0) +
      (if gender (prefs A) = JStr ''any'' \<or> gender (prefs B) = JStr ''any'' then 1 else 0) +
      (if level (prefs A) = JStr ''any'' \<or> level (prefs B) = JStr ''any'' then 1 else 0)"
    and "waitBonus =
      min 10 ((of_int (nowA - enqueuedAt A) / 1000 + of_int (nowB - enqueuedAt B) / 1000) / 6)"
  shows "matchScore (prefs A) (prefs B) = base \<and>
         pairTotal clk rdy q (i, j) = Some (base + waitBonus) \<and>
         (scan clk rdy q = Some ((i, j), t) \<longrightarrow> t = base + waitBonus) \<and>
         prefsSet \<lparr>gender = or_any g, level = or_any l\<rparr>"
proof -
  have b: "matchScore (prefs A) (prefs B) = base"
    using assms(7,8,10) by (simp only: matchScore_set)
  have p: "pairTotal clk rdy q (i, j) = Some (base + waitBonus)"
    using assms(3-6,9,11) b by (simp add: pairTotal_def Let_def)
  have "t = base + waitBonus" if "scan clk rdy q = Some ((i, j), t)"
    using scan_Some(3) [OF that] p by simp
  with b p show ?thesis
    by (simp add: prefsSet_def truthy_or_any)
qed

theorem pairTotal_formula_witness:
  "matchScore (prefs e_a) (prefs e_b) = 2 + 0 + 0 + 1 \<and>
   pairTotal clk0 (\<lambda>_. True) [e_a, e_b, e_c] (0, 1) = Some (3 + min 10 ((8 + 6) / 6)) \<and>
   scan clk0 (\<lambda>_. True) [e_a, e_b, e_c] = Some ((0, 1), 16 / 3)"
proof -
  have sc: "scan clk0 (\<lambda>_. True) [e_a, e_b, e_c] = Some ((0, 1), 16 / 3)"
    by code_simp
  have ps: "prefsSet (prefs e_a)" "prefsSet (prefs e_b)"
    by (simp_all add: prefsSet_def e_a_def e_b_def)
  have "matchScore (prefs e_a) (prefs e_b) = 3 \<and>
        pairTotal clk0 (\<lambda>_. True) [e_a, e_b, e_c] (0, 1) = Some (3 + min 10 ((8 + 6) / 6))"
    using pairTotal_formula [of 0 1 "[e_a, e_b, e_c]" e_a e_b "\<lambda>_. True" clk0 9000 9000
        3 "min 10 ((8 + 6) / 6)" "16 / 3" JUndefined JUndefined] ps
    by (simp add: clk0_def e_a_def e_b_def)
  with sc show ?thesis by simp
qed

text \<open>
  C3, as stated, fails. When connection 2 has been enqueued after connection 1, both
  entries have the preferences \<open>{any, any}\<close>, and the scan gives the pair the total
  \<open>31 / 3\<close>, which is \<open>8\<close> plus the wait bonus \<open>(8 + 6) / 6\<close>, not \<open>0 + 1 + 1\<close> plus it.
\<close>

theorem any_any_base_counterexample:
  "map prefs (queue (enqueueFind 2 JUndefined (JStr '''') 3000 s_wait)) = [pAny, pAny] \<and>
   scan clk0 (ready (enqueueFind 2 JUndefined (JStr '''') 3000 s_wait))
     (queue (enqueueFind 2 JUndefined (JStr '''') 3000 s_wait)) = Some ((0, 1), 31 / 3) \<and>
   (31 / 3 :: rat) \<noteq> 0 + 1 + 1 + min 10 ((8 + 6) / 6) \<and>
   matchScore pAny pAny \<noteq> 2"
  by code_simp

text \<open>
  C3, amended. When the queue holds exactly two entries, both with the preferences
  \<open>{any, any}\<close> and both with open sockets, \<open>tryMatch\<close> pairs these two: the queue
  becomes empty, the room of the two sockets is stored and both are sent \<open>matched\<close>.
  The base score is \<open>2 + 4 + 1 + 1 = 8\<close> and the total is \<open>8 + waitBonus\<close>, which is at
  least 8 when neither entry was enqueued after the clock reading taken for it.
\<close>

theorem two_any_any_match:
  assumes "queue s = [A, B]" and "prefs A = pAny" and "prefs B = pAny"
    and "ready s (ws A)" and "ready s (ws B)"
    and "clk 0 1 = (nowA, nowB)"
    and "waitBonus =
      min 10 ((of_int (nowA - enqueuedAt A) / 1000 + of_int (nowB - enqueuedAt B) / 1000) / 6)"
    and "s' = tryMatch newId clk s"
  shows "matchScore (prefs A) (prefs B) = 2 + 4 + 1 + 1 \<and>
         scan clk (ready s) (queue s) = Some ((0, 1), 8 + waitBonus) \<and>
         queue s' = [] \<and>
         rooms s' = (rooms s)(newId \<mapsto> \<lparr>room_a = ws A, room_b = ws B\<rparr>) \<and>
         outbox s' = outbox s @ [(ws A, Matched newId), (ws B, Matched newId)] \<and>
         (enqueuedAt A \<le> nowA \<and> enqueuedAt B \<le> nowB \<longrightarrow> 8 + waitBonus \<ge> 8)"
proof -
  have ms: "matchScore (prefs A) (prefs B) = 8"
    using assms(2,3) by (simp add: matchScore_def pAny_def or_any_def)
  have pt: "pairTotal clk (ready s) [A, B] (0, Suc 0) = Some (8 + waitBonus)"
    using assms(4-7) ms by (simp add: pairTotal_def Let_def)
  have sc: "scan clk (ready s) (queue s) = Some ((0, 1), 8 + waitBonus)"
    using assms(1) pt by (simp add: scan_def indexPairs_def better_def)
  have wb: "8 + waitBonus \<ge> 8" if "enqueuedAt A \<le> nowA" "enqueuedAt B \<le> nowB"
    using that assms(7) by simp
  have ob: "outbox s' = outbox s @ [(ws A, Matched newId), (ws B, Matched newId)]"
    using assms(1,4,5,8) by (simp add: tryMatch_Some [OF sc] safeSend_outbox)
  from ms sc wb ob assms(1,8) show ?thesis
    by (simp add: tryMatch_Some_fields [OF sc] splice1_def)
qed

theorem two_any_any_match_witness:
  "queue (enqueueFind 2 JUndefined (JStr '''') 3000 s_wait) =
     [\<lparr>ws = 1, prefs = pAny, enqueuedAt = 1000\<rparr>, \<lparr>ws = 2, prefs = pAny, enqueuedAt = 3000\<rparr>] \<and>
   scan clk0 (ready (enqueueFind 2 JUndefined (JStr '''') 3000 s_wait))
     (queue (enqueueFind 2 JUndefined (JStr '''') 3000 s_wait)) =
     Some ((0, 1), 8 + min 10 ((8 + 6) / 6)) \<and>
   queue s_chat = [] \<and>
   rooms s_chat = (rooms (enqueueFind 2 JUndefined (JStr '''') 3000 s_wait))
     (31 \<mapsto> \<lparr>room_a = 1, room_b = 2\<rparr>)"
proof -
  let ?s = "enqueueFind 2 JUndefined (JStr '''') 3000 s_wait"
  let ?A = "\<lparr>ws = 1, prefs = pAny, enqueuedAt = 1000\<rparr>"
  let ?B = "\<lparr>ws = 2, prefs = pAny, enqueuedAt = 3000\<rparr>"
  have q: "queue ?s = [?A, ?B]"
    by code_simp
  have r: "ready ?s 1" "ready ?s 2"
    by code_simp+
  have "clients s_wait 2 = Some \<lparr>cid = 21, roomId = None, state = ''idle'', mprefs = pAny\<rparr>"
    by code_simp
  then have c: "s_chat = tryMatch 31 clk0 ?s"
    by (simp add: s_chat_def onMessage_def onFind_def)
  from two_any_any_match [of ?s ?A ?B clk0 9000 9000 "min 10 ((8 + 6) / 6)" s_chat 31] q r c
  show ?thesis by (simp add: clk0_def)
qed

section \<open>Removing the matched entries\<close>

lemma splice1_split:
  assumes "i < length xs"
  shows "xs = take i xs @ xs ! i # drop (Suc i) xs"
  using assms by (rule id_take_nth_drop)

lemma set_splice1_subset: "set (splice1 i xs) \<subseteq> set xs"
proof -
  have "set (take i xs) \<subseteq> set xs" "set (drop (Suc i) xs) \<subseteq> set xs"
    by (rule set_take_subset, rule set_drop_subset)
  then show ?thesis by (simp add: splice1_def)
qed

lemma distinct_splice1: "distinct xs \<Longrightarrow> distinct (splice1 i xs)"
proof -
  assume d: "distinct xs"
  have "set (take i xs) \<inter> set (drop (Suc i) xs) = {}"
    using d set_take_disj_set_drop_if_distinct [of xs i "Suc i"] by simp
  with d show ?thesis by (simp add: splice1_def)
qed

lemma splice1_filter:
  assumes d: "distinct xs" and i: "i < length xs"
  shows "splice1 i xs = filter (\<lambda>e. e \<noteq> xs ! i) xs"
proof -
  define a where "a = take i xs"
  define b where "b = drop (Suc i) xs"
  define x where "x = xs ! i"
  have xs: "xs = a @ x # b"
    unfolding a_def b_def x_def using i by (rule splice1_split)
  with d have "x \<notin> set a" "x \<notin> set b" by auto
  then have "filter (\<lambda>e. e \<noteq> x) a = a" "filter (\<lambda>e. e \<noteq> x) b = b"
    by (auto simp: filter_id_conv)
  then have "filter (\<lambda>e. e \<noteq> x) xs = a @ b"
    using xs by simp
  then show ?thesis
    by (simp add: splice1_def a_def b_def x_def)
qed

lemma splice1_two_filter:
  assumes d: "distinct xs" and ij: "i < j" and j: "j < length xs"
  shows "splice1 i (splice1 j xs) = filter (\<lambda>e. e \<noteq> xs ! i \<and> e \<noteq> xs ! j) xs"
proof -
  have i': "i < length (splice1 j xs)"
    using ij j length_splice1 [of j xs] by simp
  have n: "splice1 j xs ! i = xs ! i"
    using ij j by (rule nth_splice1_below)
  have "splice1 i (splice1 j xs) = filter (\<lambda>e. e \<noteq> splice1 j xs ! i) (splice1 j xs)"
    using distinct_splice1 [OF d] i' by (rule splice1_filter)
  also have "\<dots> = filter (\<lambda>e. e \<noteq> xs ! i) (splice1 j xs)"
    by (simp only: n)
  also have "\<dots> = filter (\<lambda>e. e \<noteq> xs ! i) (filter (\<lambda>e. e \<noteq> xs ! j) xs)"
    by (simp only: splice1_filter [OF d j])
  finally show ?thesis by (simp add: conj_commute)
qed

lemma length_splice1_two:
  assumes "i < j" and "j < length xs"
  shows "length (splice1 i (splice1 j xs)) + 2 = length xs"
proof -
  have "i < length (splice1 j xs)"
    using assms length_splice1 [of j xs] by simp
  from length_splice1 [OF this] length_splice1 [OF assms(2)] show ?thesis by simp
qed

lemma match_pair_facts:
  assumes d: "distinct (map ws (queue s))"
    and sc: "scan clk (ready s) (queue s) = Some ((i, j), t)"
  shows "ws (queue s ! i) \<noteq> ws (queue s ! j)"
    and "queue (tryMatch newId clk s) =
           filter (\<lambda>e. e \<noteq> queue s ! i \<and> e \<noteq> queue s ! j) (queue s)"
    and "queue s ! i \<in> set (queue s)" and "queue s ! j \<in> set (queue s)"
    and "length (queue (tryMatch newId clk s)) + 2 = length (queue s)"
    and "\<not> inPool (tryMatch newId clk s) (ws (queue s ! i))"
    and "\<not> inPool (tryMatch newId clk s) (ws (queue s ! j))"
proof -
  let ?s' = "tryMatch newId clk s"
  let ?A = "queue s ! i" and ?B = "queue s ! j"
  note ij = scan_Some(1,2) [OF sc]
  from d have dq: "distinct (queue s)" and inj: "inj_on ws (set (queue s))"
    by (simp_all add: distinct_map)
  show mem: "?A \<in> set (queue s)" "?B \<in> set (queue s)"
    using ij by simp_all
  have "map ws (queue s) ! i \<noteq> map ws (queue s) ! j"
    using nth_eq_iff_index_eq [OF d, of i j] ij by simp
  then show "ws ?A \<noteq> ws ?B"
    using ij by simp
  show q: "queue ?s' = filter (\<lambda>e. e \<noteq> ?A \<and> e \<noteq> ?B) (queue s)"
    using splice1_two_filter [OF dq ij] by (simp add: tryMatch_Some_fields [OF sc])
  show "length (queue ?s') + 2 = length (queue s)"
    using length_splice1_two [OF ij] by (simp add: tryMatch_Some_fields [OF sc])
  have out: "\<not> inPool ?s' (ws x)" if "x \<in> set (queue s)" "x = ?A \<or> x = ?B" for x
  proof
    assume "inPool ?s' (ws x)"
    then obtain e where e: "e \<in> set (queue s)" "e \<noteq> ?A" "e \<noteq> ?B" "ws e = ws x"
      using q by (auto simp: inPool_def)
    with inj that(1) have "e = x" by (auto dest: inj_onD)
    with e that(2) show False by auto
  qed
  from out [of ?A] mem show "\<not> inPool ?s' (ws ?A)" by simp
  from out [of ?B] mem show "\<not> inPool ?s' (ws ?B)" by simp
qed

text \<open>
  C6. When no socket has two queue entries and \<open>tryMatch\<close> makes a match, the two
  matched entries \<open>A\<close> and \<open>B\<close> belong to different sockets, the room stored under the
  new id has these two different sockets as its members, and the queue afterwards is
  the queue before without \<open>A\<close> and \<open>B\<close> and nothing else: it is two entries shorter
  and neither socket has an entry in it.
\<close>

theorem match_removes_the_pair:
  assumes "distinct (map ws (queue s))"
    and "scan clk (ready s) (queue s) = Some ((i, j), t)"
    and "A = queue s ! i" and "B = queue s ! j"
    and "s' = tryMatch newId clk s"
  shows "ws A \<noteq> ws B \<and>
         rooms s' newId = Some \<lparr>room_a = ws A, room_b = ws B\<rparr> \<and>
         queue s' = filter (\<lambda>e. e \<noteq> A \<and> e \<noteq> B) (queue s) \<and>
         A \<in> set (queue s) \<and> B \<in> set (queue s) \<and>
         length (queue s') + 2 = length (queue s) \<and>
         \<not> inPool s' (ws A) \<and> \<not> inPool s' (ws B)"
proof -
  note pf = match_pair_facts [OF assms(1,2)]
  have "rooms s' newId = Some \<lparr>room_a = ws A, room_b = ws B\<rparr>"
    using assms(3-5) by (simp add: tryMatch_Some_fields [OF assms(2)])
  with pf assms(3-5) show ?thesis by simp
qed

theorem match_removes_the_pair_witness:
  "distinct (map ws (queue s_pool3)) \<and>
   scan clk0 (ready s_pool3) (queue s_pool3) = Some ((0, 1), 16 / 3) \<and>
   ws e_a \<noteq> ws e_b \<and>
   rooms (tryMatch 31 clk0 s_pool3) 31 = Some \<lparr>room_a = ws e_a, room_b = ws e_b\<rparr> \<and>
   length (queue (tryMatch 31 clk0 s_pool3)) + 2 = length (queue s_pool3) \<and>
   \<not> inPool (tryMatch 31 clk0 s_pool3) (ws e_a) \<and>
   \<not> inPool (tryMatch 31 clk0 s_pool3) (ws e_b)"
proof -
  have d: "distinct (map ws (queue s_pool3))"
    by (simp add: s_pool3_def e_a_def e_b_def e_c_def)
  have sc: "scan clk0 (ready s_pool3) (queue s_pool3) = Some ((0, 1), 16 / 3)"
    by code_simp
  have q: "queue s_pool3 ! 0 = e_a" "queue s_pool3 ! 1 = e_b"
    by (simp_all add: s_pool3_def)
  from match_removes_the_pair [OF d sc q(1) [symmetric] q(2) [symmetric] refl, of 31]
  have "ws e_a \<noteq> ws e_b \<and>
    rooms (tryMatch 31 clk0 s_pool3) 31 = Some \<lparr>room_a = ws e_a, room_b = ws e_b\<rparr> \<and>
    length (queue (tryMatch 31 clk0 s_pool3)) + 2 = length (queue s_pool3) \<and>
    \<not> inPool (tryMatch 31 clk0 s_pool3) (ws e_a) \<and>
    \<not> inPool (tryMatch 31 clk0 s_pool3) (ws e_b)"
    by blast
  with d sc show ?thesis by blast
qed

section \<open>Entries with closed sockets\<close>

lemma filter_splice1_keep:
  assumes "i < length xs" and "\<not> P (xs ! i)"
  shows "filter P (splice1 i xs) = filter P xs"
proof -
  have "filter P xs = filter P (take i xs @ xs ! i # drop (Suc i) xs)"
    using splice1_split [OF assms(1)] by simp
  also have "\<dots> = filter P (splice1 i xs)"
    using assms(2) by (simp add: splice1_def)
  finally show ?thesis by simp
qed

lemma two_in_filter:
  assumes "i < j" and "j < length xs" and "P (xs ! i)" and "P (xs ! j)"
  shows "2 \<le> length (filter P xs)"
proof -
  have "xs ! i \<in> set (take j xs)"
    using assms(1,2) by (auto simp: in_set_conv_nth intro!: exI [of _ i])
  with assms(3) have "filter P (take j xs) \<noteq> []"
    by (auto simp: filter_empty_conv)
  then have "1 \<le> length (filter P (take j xs))"
    by (cases "filter P (take j xs)") simp_all
  moreover have "filter P xs = filter P (take j xs) @ filter P (xs ! j # drop (Suc j) xs)"
    using splice1_split [OF assms(2)] by (metis filter_append)
  ultimately show ?thesis using assms(4) by simp
qed

lemma enqueueFind_ready: "ready (enqueueFind w g l now s) = ready s"
  by (simp add: enqueueFind_def Let_def)

lemma tryMatch_keeps_closed:
  "filter (\<lambda>e. \<not> ready s (ws e)) (queue (tryMatch newId clk s)) =
   filter (\<lambda>e. \<not> ready s (ws e)) (queue s)"
proof (cases "scan clk (ready s) (queue s)")
  case None
  then show ?thesis by (simp add: tryMatch_None)
next
  case (Some b)
  obtain i j t where "b = ((i, j), t)" by (metis surj_pair)
  with Some have sc: "scan clk (ready s) (queue s) = Some ((i, j), t)" by simp
  note ij = scan_Some(1,2) [OF sc]
  from pairTotal_Some_ready [OF scan_Some(3) [OF sc]]
  have op: "ready s (ws (queue s ! i))" "ready s (ws (queue s ! j))" by simp_all
  have i': "i < length (splice1 j (queue s))"
    using ij length_splice1 [of j "queue s"] by simp
  have "filter (\<lambda>e. \<not> ready s (ws e)) (splice1 i (splice1 j (queue s))) =
        filter (\<lambda>e. \<not> ready s (ws e)) (splice1 j (queue s))"
    using i' op(1) ij by (intro filter_splice1_keep) (simp_all add: nth_splice1_below)
  also have "\<dots> = filter (\<lambda>e. \<not> ready s (ws e)) (queue s)"
    using ij(2) op(2) by (intro filter_splice1_keep) simp_all
  finally show ?thesis by (simp add: tryMatch_Some_fields [OF sc])
qed

lemma tryMatch_few_open:
  assumes "length (filter (\<lambda>e. ready s (ws e)) (queue s)) < 2"
  shows "tryMatch newId clk s = s"
proof (cases "scan clk (ready s) (queue s)")
  case None
  then show ?thesis by (rule tryMatch_None)
next
  case (Some b)
  obtain i j t where "b = ((i, j), t)" by (metis surj_pair)
  with Some have sc: "scan clk (ready s) (queue s) = Some ((i, j), t)" by simp
  from pairTotal_Some_ready [OF scan_Some(3) [OF sc]]
  have "ready s (ws (queue s ! i))" "ready s (ws (queue s ! j))" by simp_all
  from two_in_filter [of i j "queue s" "\<lambda>e. ready s (ws e)", OF scan_Some(1,2) [OF sc] this]
  show ?thesis using assms by simp
qed

lemma tryMatch_queue_subset: "set (queue (tryMatch newId clk s)) \<subseteq> set (queue s)"
proof (cases "scan clk (ready s) (queue s)")
  case None
  then show ?thesis by (simp add: tryMatch_None)
next
  case (Some b)
  obtain i j t where "b = ((i, j), t)" by (metis surj_pair)
  with Some have sc: "scan clk (ready s) (queue s) = Some ((i, j), t)" by simp
  have "set (splice1 i (splice1 j (queue s))) \<subseteq> set (queue s)"
    using set_splice1_subset [of i "splice1 j (queue s)"] set_splice1_subset [of j "queue s"]
    by blast
  then show ?thesis by (simp add: tryMatch_Some_fields [OF sc])
qed

text \<open>
  C5, as stated, fails for the call of \<open>tryMatch\<close> that follows an enqueue. In \<open>s_dead\<close>
  the queue holds the entry of connection 1, whose socket is no longer open. After the
  \<open>find\<close> request of connection 2 has been processed, that entry is still in the queue.
\<close>

theorem find_does_not_purge_counterexample:
  "\<not> ready s_dead 1 \<and>
   map ws (queue s_dead) = [1] \<and>
   \<not> ready (onMessage 2 (Some (Find JUndefined JUndefined)) 3000 31 clk0 s_dead) 1 \<and>
   map ws (queue (onMessage 2 (Some (Find JUndefined JUndefined)) 3000 31 clk0 s_dead)) = [1, 2]"
  by code_simp

text \<open>
  C5, amended. The periodic tick first removes every entry whose socket is not open
  and then calls \<open>tryMatch\<close>, so only entries with open sockets are left after it.
  \<open>tryMatch\<close> itself, in the tick and after an enqueue alike, removes no entry of a
  closed socket and selects only pairs with both sockets open; with fewer than two
  entries of open sockets in the queue it changes nothing.
\<close>

theorem purge_on_tick_only:
  "set (queue (tick newId clk s)) \<subseteq> {e \<in> set (queue s). ready s (ws e)} \<and>
   (length (filter (\<lambda>e. ready s (ws e)) (queue s)) < 2 \<longrightarrow>
      tryMatch newId clk s = s \<and> tick newId clk s = purge s) \<and>
   (\<forall>i j t. scan clk (ready s) (queue s) = Some ((i, j), t) \<longrightarrow>
      ready s (ws (queue s ! i)) \<and> ready s (ws (queue s ! j))) \<and>
   filter (\<lambda>e. \<not> ready s (ws e)) (queue (tryMatch newId clk s)) =
     filter (\<lambda>e. \<not> ready s (ws e)) (queue s) \<and>
   filter (\<lambda>e. \<not> ready s (ws e)) (queue (onFind w g l now newId clk s)) =
     filter (\<lambda>e. \<not> ready s (ws e)) (queue (enqueueFind w g l now s))"
proof -
  have a: "set (queue (tick newId clk s)) \<subseteq> {e \<in> set (queue s). ready s (ws e)}"
    using tryMatch_queue_subset [of newId clk "purge s"] by (auto simp: tick_def purge_def)
  have b: "tryMatch newId clk s = s \<and> tick newId clk s = purge s"
    if "length (filter (\<lambda>e. ready s (ws e)) (queue s)) < 2"
  proof
    show "tryMatch newId clk s = s" using that by (rule tryMatch_few_open)
    have "length (filter (\<lambda>e. ready (purge s) (ws e)) (queue (purge s))) < 2"
      using that by (simp add: purge_def)
    then show "tick newId clk s = purge s"
      unfolding tick_def by (rule tryMatch_few_open)
  qed
  have c: "ready s (ws (queue s ! i)) \<and> ready s (ws (queue s ! j))"
    if "scan clk (ready s) (queue s) = Some ((i, j), t)" for i j t
    using pairTotal_Some_ready [OF scan_Some(3) [OF that]] .
  have d: "filter (\<lambda>e. \<not> ready s (ws e)) (queue (onFind w g l now newId clk s)) =
     filter (\<lambda>e. \<not> ready s (ws e)) (queue (enqueueFind w g l now s))"
    using tryMatch_keeps_closed [of "enqueueFind w g l now s" newId clk]
    by (simp add: onFind_def enqueueFind_ready)
  from a b c d show ?thesis
    by (simp add: tryMatch_keeps_closed)
qed

theorem purge_on_tick_only_witness:
  "length (filter (\<lambda>e. ready s_dead (ws e)) (queue s_dead)) < 2 \<and>
   map ws (queue s_dead) = [1] \<and>
   tryMatch 31 clk0 s_dead = s_dead \<and>
   tick 31 clk0 s_dead = purge s_dead \<and>
   queue (tick 31 clk0 s_dead) = []"
proof -
  have q: "map ws (queue s_dead) = [1]" "\<not> ready s_dead 1"
    by code_simp+
  then have l: "length (filter (\<lambda>e. ready s_dead (ws e)) (queue s_dead)) < 2"
    by (cases "queue s_dead") auto
  have p: "queue (purge s_dead) = []"
    using q by (cases "queue s_dead") (auto simp: purge_def)
  from purge_on_tick_only [of 31 clk0 s_dead] l q p show ?thesis
    by simp
qed

section \<open>The invariant of the reachable states\<close>

lemma Inv_eq:
  assumes "queue s' = queue s" and "rooms s' = rooms s" and "clients s' = clients s"
  shows "Inv s' = Inv s"
  using assms by (simp add: Inv_def queueOk_def roomsOk_def memberOk_def statesOk_def inPool_def)

lemma Inv_safeSend [simp]: "Inv (safeSend w m s) = Inv s"
  by (rule Inv_eq) simp_all

lemma Inv_shrink:
  assumes inv: "Inv s"
    and qd: "distinct (map ws (queue s'))"
    and qs: "set (queue s') \<subseteq> set (queue s)"
    and rs: "\<forall>r. rooms s' r = rooms s r \<or> rooms s' r = None"
    and cs: "\<forall>v. map_option roomId (clients s' v) = map_option roomId (clients s v) \<or>
                 (\<not> inRoom s' v \<and> (inPool s' v \<longrightarrow> clients s' v \<noteq> None))"
    and st: "statesOk s'"
  shows "Inv s'"
proof -
  from inv have q: "queueOk s" and r: "roomsOk s"
    by (simp_all add: Inv_def)
  have pool: "inPool s v" if "inPool s' v" for v
    using that qs by (auto simp: inPool_def)
  have reg: "clients s' v \<noteq> None" if "inPool s' v" for v
  proof -
    from pool [OF that] q have "clients s v \<noteq> None"
      by (auto simp: queueOk_def inPool_def)
    with cs [rule_format, of v] that show ?thesis
      by (cases "clients s' v") auto
  qed
  have q': "queueOk s'"
    unfolding queueOk_def
  proof (intro conjI ballI)
    show "distinct (map ws (queue s'))" by (rule qd)
  next
    fix e assume e: "e \<in> set (queue s')"
    then have "inPool s' (ws e)" by (auto simp: inPool_def)
    then show "clients s' (ws e) \<noteq> None" by (rule reg)
    from e qs q show "prefsSet (prefs e)" by (auto simp: queueOk_def)
  qed
  have mem: "memberOk s' r0 v"
    if rm: "rooms s' r0 = Some rm" and v: "v = room_a rm \<or> v = room_b rm" for r0 rm v
  proof -
    from rm rs [rule_format, of r0] have rm0: "rooms s r0 = Some rm" by auto
    with r v have m: "memberOk s r0 v" by (auto simp: roomsOk_def)
    from rm v have "inRoom s' v" by (auto simp: inRoom_def)
    with cs [rule_format, of v]
    have "map_option roomId (clients s' v) = map_option roomId (clients s v)" by blast
    with m have "\<exists>m. clients s' v = Some m \<and> roomId m = Some r0"
      by (cases "clients s' v") (auto simp: memberOk_def)
    moreover from m pool have "\<not> inPool s' v" by (auto simp: memberOk_def)
    ultimately show ?thesis by (simp add: memberOk_def)
  qed
  have r': "roomsOk s'"
    unfolding roomsOk_def
  proof (intro allI impI)
    fix r0 rm assume rm: "rooms s' r0 = Some rm"
    with rs [rule_format, of r0] have "rooms s r0 = Some rm" by auto
    with r have "room_a rm \<noteq> room_b rm" by (auto simp: roomsOk_def)
    with mem [OF rm] show "room_a rm \<noteq> room_b rm \<and> memberOk s' r0 (room_a rm) \<and> memberOk s' r0 (room_b rm)"
      by simp
  qed
  from q' r' st show ?thesis by (simp add: Inv_def)
qed

lemma splice1_map: "map f (splice1 i xs) = splice1 i (map f xs)"
  by (simp add: splice1_def take_map drop_map)

lemma removeFromQueue_queue:
  "distinct (map f xs) \<Longrightarrow>
   (case findIndex (\<lambda>q. f q = w) xs of None \<Rightarrow> xs | Some i \<Rightarrow> splice1 i xs) =
   filter (\<lambda>q. f q \<noteq> w) xs"
proof (induction xs)
  case Nil
  show ?case by simp
next
  case (Cons x xs)
  show ?case
  proof (cases "f x = w")
    case True
    with Cons.prems have "\<forall>q\<in>set xs. f q \<noteq> w" by (auto simp: image_iff)
    then have "filter (\<lambda>q. f q \<noteq> w) xs = xs" by (simp add: filter_id_conv)
    with True show ?thesis by (simp add: splice1_def)
  next
    case False
    from Cons have "(case findIndex (\<lambda>q. f q = w) xs of None \<Rightarrow> xs | Some i \<Rightarrow> splice1 i xs) =
      filter (\<lambda>q. f q \<noteq> w) xs" by simp
    with False show ?thesis
      by (simp add: splice1_def split: option.splits)
  qed
qed

lemma removeFromQueue_filter:
  "distinct (map ws (queue s)) \<Longrightarrow>
   queue (removeFromQueue w s) = filter (\<lambda>q. ws q \<noteq> w) (queue s)"
  using removeFromQueue_queue [of ws "queue s" w]
  by (simp add: removeFromQueue_def split: option.splits)

lemma statesOk_eq: "clients s' = clients s \<Longrightarrow> statesOk s' = statesOk s"
  by (simp add: statesOk_def)

lemma Inv_removeFromQueue:
  assumes "Inv s"
  shows "Inv (removeFromQueue w s)" and "\<not> inPool (removeFromQueue w s) w"
proof -
  from assms have d: "distinct (map ws (queue s))"
    by (simp add: Inv_def queueOk_def)
  note q = removeFromQueue_filter [OF d, of w]
  show "\<not> inPool (removeFromQueue w s) w"
    by (auto simp: inPool_def q)
  from assms have "statesOk (removeFromQueue w s)"
    using statesOk_eq [of "removeFromQueue w s" s] by (simp add: Inv_def)
  with assms d show "Inv (removeFromQueue w s)"
    by (rule_tac Inv_shrink [of s]) (simp_all add: q distinct_map_filter)
qed


lemma leaveRoom_rooms:
  "rooms (leaveRoom w s) =
     (case clients s w of
        None \<Rightarrow> rooms s
      | Some m \<Rightarrow> (case roomId m of None \<Rightarrow> rooms s | Some r \<Rightarrow> (rooms s)(r := None)))"
  by (auto simp: leaveRoom_def Let_def split: option.splits)

lemma to_idle_idem [simp]: "to_idle (to_idle m) = to_idle m"
  by (simp add: to_idle_def)

lemma leaveRoom_clients:
  "clients (leaveRoom w s) v = clients s v \<or>
   (clients (leaveRoom w s) v = map_option to_idle (clients s v) \<and>
    (\<exists>m r. clients s w = Some m \<and> roomId m = Some r \<and>
       (v = w \<or> (\<exists>rm. rooms s r = Some rm \<and> (v = room_a rm \<or> v = room_b rm)))))"
  by (auto simp: leaveRoom_def Let_def split: option.splits)

lemma statesOk_to_idle:
  assumes "statesOk s"
    and "\<forall>v. clients s' v = clients s v \<or> clients s' v = map_option to_idle (clients s v)"
  shows "statesOk s'"
  unfolding statesOk_def
proof (intro allI impI)
  fix v m assume m: "clients s' v = Some m"
  from assms(2) [rule_format, of v] m
  consider "clients s v = Some m" | m0 where "clients s v = Some m0" "m = to_idle m0"
    by (cases "clients s v") auto
  then show "state m = ''idle'' \<or> state m = ''searching'' \<or> state m = ''chat''"
  proof cases
    case 1
    with assms(1) show ?thesis by (simp add: statesOk_def)
  next
    case 2
    then show ?thesis by (simp add: to_idle_def)
  qed
qed

lemma Inv_leaveRoom:
  assumes inv: "Inv s"
  shows "Inv (leaveRoom w s)"
proof (rule Inv_shrink [OF inv])
  let ?s' = "leaveRoom w s"
  from inv have q: "queueOk s" and r: "roomsOk s" and st: "statesOk s"
    by (simp_all add: Inv_def)
  show "distinct (map ws (queue ?s'))"
    using q by (simp add: queueOk_def)
  show "set (queue ?s') \<subseteq> set (queue s)" by simp
  show rs: "\<forall>r. rooms ?s' r = rooms s r \<or> rooms ?s' r = None"
    by (simp add: leaveRoom_rooms split: option.splits)
  show "statesOk ?s'"
  proof (rule statesOk_to_idle [OF st])
    show "\<forall>v. clients ?s' v = clients s v \<or> clients ?s' v = map_option to_idle (clients s v)"
      using leaveRoom_clients [of w s] by blast
  qed
  show "\<forall>v. map_option roomId (clients ?s' v) = map_option roomId (clients s v) \<or>
            (\<not> inRoom ?s' v \<and> (inPool ?s' v \<longrightarrow> clients ?s' v \<noteq> None))"
  proof
    fix v
    from leaveRoom_clients [of w s v]
    consider (same) "clients ?s' v = clients s v"
      | (reset) m r0 where "clients ?s' v = map_option to_idle (clients s v)"
          "clients s w = Some m" "roomId m = Some r0"
          "v = w \<or> (\<exists>rm. rooms s r0 = Some rm \<and> (v = room_a rm \<or> v = room_b rm))"
      by blast
    then show "map_option roomId (clients ?s' v) = map_option roomId (clients s v) \<or>
            (\<not> inRoom ?s' v \<and> (inPool ?s' v \<longrightarrow> clients ?s' v \<noteq> None))" (is ?G)
    proof cases
      case same
      then show ?G by simp
    next
      case reset
      note c = reset(1) and m = reset(2) and r0 = reset(3) and v = reset(4)
      from m r0 have gone: "rooms ?s' r0 = None"
        by (simp add: leaveRoom_rooms)
      have ptr: "memberOk s r1 v \<Longrightarrow> r1 = r0" for r1
      proof -
        assume a: "memberOk s r1 v"
        from v show "r1 = r0"
        proof
          assume "v = w"
          with a m r0 show ?thesis by (simp add: memberOk_def)
        next
          assume "\<exists>rm. rooms s r0 = Some rm \<and> (v = room_a rm \<or> v = room_b rm)"
          with r have "memberOk s r0 v" by (auto simp: roomsOk_def)
          with a show ?thesis by (auto simp: memberOk_def)
        qed
      qed
      have "\<not> inRoom ?s' v"
      proof
        assume "inRoom ?s' v"
        then obtain r1 rm1 where rm1: "rooms ?s' r1 = Some rm1"
          and v1: "room_a rm1 = v \<or> room_b rm1 = v"
          by (auto simp: inRoom_def)
        from rm1 rs have "rooms s r1 = Some rm1" by (metis option.distinct(1))
        with r v1 have "memberOk s r1 v" by (auto simp: roomsOk_def)
        then have "r1 = r0" by (rule ptr)
        with rm1 gone show False by simp
      qed
      moreover have "clients ?s' v \<noteq> None" if "inPool ?s' v"
      proof -
        from that q have "clients s v \<noteq> None"
          by (auto simp: inPool_def queueOk_def)
        with c show ?thesis by simp
      qed
      ultimately show ?G by blast
    qed
  qed
qed

lemma not_inRoom_no_roomId:
  assumes "roomsOk s" and "\<forall>m. clients s w = Some m \<longrightarrow> roomId m = None"
  shows "\<not> inRoom s w"
  using assms by (fastforce simp: roomsOk_def memberOk_def inRoom_def)

lemma Inv_upd_state:
  assumes inv: "Inv s"
    and f: "\<forall>m. roomId (f m) = roomId m \<and>
              (state (f m) = ''idle'' \<or> state (f m) = ''searching'' \<or> state (f m) = ''chat'')"
  shows "Inv (upd_meta w f s)"
proof (rule Inv_shrink [OF inv])
  from inv have q: "queueOk s" and st: "statesOk s"
    by (simp_all add: Inv_def)
  show "distinct (map ws (queue (upd_meta w f s)))"
    using q by (simp add: queueOk_def)
  show "set (queue (upd_meta w f s)) \<subseteq> set (queue s)" by simp
  show "\<forall>r. rooms (upd_meta w f s) r = rooms s r \<or> rooms (upd_meta w f s) r = None" by simp
  show "\<forall>v. map_option roomId (clients (upd_meta w f s) v) = map_option roomId (clients s v) \<or>
            (\<not> inRoom (upd_meta w f s) v \<and>
             (inPool (upd_meta w f s) v \<longrightarrow> clients (upd_meta w f s) v \<noteq> None))"
  proof
    fix v
    have "map_option roomId (clients (upd_meta w f s) v) = map_option roomId (clients s v)"
      using f by (cases "clients s w") (simp_all add: upd_meta_def)
    then show "map_option roomId (clients (upd_meta w f s) v) = map_option roomId (clients s v) \<or>
            (\<not> inRoom (upd_meta w f s) v \<and>
             (inPool (upd_meta w f s) v \<longrightarrow> clients (upd_meta w f s) v \<noteq> None))" ..
  qed
  show "statesOk (upd_meta w f s)"
    using st f by (auto simp: statesOk_def)
qed


lemma Inv_push:
  assumes inv: "Inv s" and reg: "clients s w \<noteq> None"
    and np: "\<not> inPool s w" and nr: "\<not> inRoom s w" and p: "prefsSet p"
  shows "Inv (s\<lparr>queue := queue s @ [\<lparr>ws = w, prefs = p, enqueuedAt = now\<rparr>]\<rparr>)"
proof -
  let ?s' = "s\<lparr>queue := queue s @ [\<lparr>ws = w, prefs = p, enqueuedAt = now\<rparr>]\<rparr>"
  from inv have q: "queueOk s" and r: "roomsOk s" and st: "statesOk s"
    by (simp_all add: Inv_def)
  have pool: "inPool ?s' v \<longleftrightarrow> inPool s v \<or> v = w" for v
    by (auto simp: inPool_def)
  have q': "queueOk ?s'"
    using q reg np p by (auto simp: queueOk_def inPool_def)
  have r': "roomsOk ?s'"
    unfolding roomsOk_def
  proof (intro allI impI)
    fix r0 rm assume "rooms ?s' r0 = Some rm"
    then have rm: "rooms s r0 = Some rm" by simp
    with nr have "room_a rm \<noteq> w" "room_b rm \<noteq> w" by (auto simp: inRoom_def)
    moreover from rm r have "room_a rm \<noteq> room_b rm" "memberOk s r0 (room_a rm)" "memberOk s r0 (room_b rm)"
      by (auto simp: roomsOk_def)
    ultimately show "room_a rm \<noteq> room_b rm \<and> memberOk ?s' r0 (room_a rm) \<and> memberOk ?s' r0 (room_b rm)"
      by (simp add: memberOk_def pool)
  qed
  from st have "statesOk ?s'" by (simp add: statesOk_def)
  with q' r' show ?thesis by (simp add: Inv_def)
qed

lemma Inv_enqueueFind:
  assumes inv: "Inv s" and reg: "clients s w \<noteq> None"
  shows "Inv (enqueueFind w g l now s)"
proof -
  let ?p = "\<lparr>gender = or_any g, level = or_any l\<rparr>"
  let ?f = "\<lambda>m. m\<lparr>mprefs := ?p, state := ''searching''\<rparr>"
  define s1 where "s1 = leaveRoom w s"
  define s2 where "s2 = removeFromQueue w s1"
  define s3 where "s3 = upd_meta w ?f s2"
  have e: "enqueueFind w g l now s =
    safeSend w Searching (s3\<lparr>queue := queue s3 @ [\<lparr>ws = w, prefs = ?p, enqueuedAt = now\<rparr>]\<rparr>)"
    by (simp add: enqueueFind_def Let_def s1_def s2_def s3_def)
  have i1: "Inv s1" unfolding s1_def using inv by (rule Inv_leaveRoom)
  have i2: "Inv s2" and np2: "\<not> inPool s2 w"
    unfolding s2_def using i1 by (rule Inv_removeFromQueue)+
  have i3: "Inv s3" unfolding s3_def using i2 by (rule Inv_upd_state) simp
  have np3: "\<not> inPool s3 w" using np2 by (simp add: s3_def inPool_def)
  have "\<forall>m. clients s1 w = Some m \<longrightarrow> roomId m = None"
    unfolding s1_def by (auto dest: leaveRoom_cleared)
  then have "\<forall>m. clients s3 w = Some m \<longrightarrow> roomId m = None"
    by (auto simp: s3_def s2_def)
  with i3 have nr3: "\<not> inRoom s3 w"
    by (intro not_inRoom_no_roomId) (simp_all add: Inv_def)
  have "clients s1 w \<noteq> None"
    using reg leaveRoom_clients [of w s w] by (auto simp: s1_def)
  then have reg3: "clients s3 w \<noteq> None"
    by (simp add: s3_def s2_def)
  have "prefsSet ?p" by (simp add: prefsSet_def truthy_or_any)
  from Inv_push [OF i3 reg3 np3 nr3 this] show ?thesis
    by (simp add: e)
qed

lemma tryMatch_clients:
  assumes sc: "scan clk (ready s) (queue s) = Some ((i, j), t)"
    and ne: "ws (queue s ! i) \<noteq> ws (queue s ! j)"
  shows "clients (tryMatch newId clk s) v =
    (if v = ws (queue s ! i) \<or> v = ws (queue s ! j)
     then map_option (to_chat newId) (clients s v) else clients s v)"
  using ne by (simp add: tryMatch_Some [OF sc])

lemma Inv_tryMatch:
  assumes inv: "Inv s"
  shows "Inv (tryMatch newId clk s)"
proof (cases "scan clk (ready s) (queue s)")
  case None
  with inv show ?thesis by (simp add: tryMatch_None)
next
  case (Some b)
  obtain i j t where "b = ((i, j), t)" by (metis surj_pair)
  with Some have sc: "scan clk (ready s) (queue s) = Some ((i, j), t)" by simp
  let ?s' = "tryMatch newId clk s"
  let ?A = "queue s ! i" and ?B = "queue s ! j"
  from inv have q: "queueOk s" and r: "roomsOk s" and st: "statesOk s"
    by (simp_all add: Inv_def)
  from q have d: "distinct (map ws (queue s))" by (simp add: queueOk_def)
  note pf = match_pair_facts [OF d sc]
  note cl = tryMatch_clients [OF sc pf(1)]
  note rm' = tryMatch_Some_fields(2) [OF sc]
  have sub: "inPool s v" if "inPool ?s' v" for v
    using that by (auto simp: inPool_def pf(2))
  have pA: "inPool s (ws ?A)" and pB: "inPool s (ws ?B)"
    using pf(3,4) by (auto simp: inPool_def)
  have q': "queueOk ?s'"
    unfolding queueOk_def
  proof (intro conjI ballI)
    show "distinct (map ws (queue ?s'))"
      using d by (simp add: pf(2) distinct_map_filter)
  next
    fix e assume "e \<in> set (queue ?s')"
    then have e: "e \<in> set (queue s)" by (simp add: pf(2))
    with q have "clients s (ws e) \<noteq> None" by (simp add: queueOk_def)
    then show "clients ?s' (ws e) \<noteq> None" by (simp add: cl)
    from e q show "prefsSet (prefs e)" by (simp add: queueOk_def)
  qed
  have newm: "memberOk ?s' newId (ws x)" if x: "x = ?A \<or> x = ?B" for x
  proof -
    from x pf(3,4) have "x \<in> set (queue s)" by auto
    with q obtain m where m: "clients s (ws x) = Some m"
      by (auto simp: queueOk_def)
    from x have "clients ?s' (ws x) = map_option (to_chat newId) (clients s (ws x))"
      by (auto simp: cl)
    with m have "clients ?s' (ws x) = Some (to_chat newId m)" by simp
    moreover from x pf(6,7) have "\<not> inPool ?s' (ws x)" by auto
    ultimately show ?thesis by (simp add: memberOk_def to_chat_def)
  qed
  have oldm: "memberOk ?s' r0 v" if "memberOk s r0 v" for r0 v
  proof -
    from that have np: "\<not> inPool s v" by (simp add: memberOk_def)
    with pA pB have "v \<noteq> ws ?A" "v \<noteq> ws ?B" by auto
    then have "clients ?s' v = clients s v" by (simp add: cl)
    moreover from np sub have "\<not> inPool ?s' v" by blast
    ultimately show ?thesis using that by (simp add: memberOk_def)
  qed
  have r': "roomsOk ?s'"
    unfolding roomsOk_def
  proof (intro allI impI)
    fix r0 rm assume rm: "rooms ?s' r0 = Some rm"
    show "room_a rm \<noteq> room_b rm \<and> memberOk ?s' r0 (room_a rm) \<and> memberOk ?s' r0 (room_b rm)"
    proof (cases "r0 = newId")
      case True
      with rm have "rm = \<lparr>room_a = ws ?A, room_b = ws ?B\<rparr>" by (simp add: rm')
      with True pf(1) newm [of ?A] newm [of ?B] show ?thesis by simp
    next
      case False
      with rm have "rooms s r0 = Some rm" by (simp add: rm')
      with r have "room_a rm \<noteq> room_b rm" "memberOk s r0 (room_a rm)" "memberOk s r0 (room_b rm)"
        by (auto simp: roomsOk_def)
      with oldm show ?thesis by simp
    qed
  qed
  have st': "statesOk ?s'"
    unfolding statesOk_def
  proof (intro allI impI)
    fix v m assume m: "clients ?s' v = Some m"
    show "state m = ''idle'' \<or> state m = ''searching'' \<or> state m = ''chat''"
    proof (cases "v = ws ?A \<or> v = ws ?B")
      case True
      with m have "map_option (to_chat newId) (clients s v) = Some m" by (simp add: cl)
      then show ?thesis by (auto simp: to_chat_def)
    next
      case False
      with m have "clients s v = Some m" by (simp add: cl)
      with st show ?thesis by (simp add: statesOk_def)
    qed
  qed
  from q' r' st' show ?thesis by (simp add: Inv_def)
qed


lemma Inv_purge: "Inv s \<Longrightarrow> Inv (purge s)"
proof (rule Inv_shrink [of s])
  assume inv: "Inv s"
  then show "Inv s" .
  from inv show "distinct (map ws (queue (purge s)))"
    by (simp add: purge_def Inv_def queueOk_def distinct_map_filter)
  show "set (queue (purge s)) \<subseteq> set (queue s)"
    by (auto simp: purge_def)
  show "\<forall>r. rooms (purge s) r = rooms s r \<or> rooms (purge s) r = None"
    by (simp add: purge_def)
  show "\<forall>v. map_option roomId (clients (purge s) v) = map_option roomId (clients s v) \<or>
    (\<not> inRoom (purge s) v \<and> (inPool (purge s) v \<longrightarrow> clients (purge s) v \<noteq> None))"
    by (simp add: purge_def)
  from inv show "statesOk (purge s)"
    by (simp add: purge_def Inv_def statesOk_def)
qed

lemma Inv_onCancel: "Inv s \<Longrightarrow> Inv (onCancel w s)"
  by (simp add: onCancel_def Let_def Inv_upd_state Inv_removeFromQueue(1))

lemma Inv_onLeave: "Inv s \<Longrightarrow> Inv (onLeave w s)"
  by (simp add: onLeave_def Let_def Inv_upd_state Inv_removeFromQueue(1) Inv_leaveRoom)

lemma Inv_onChat: "Inv s \<Longrightarrow> Inv (onChat w t s)"
  by (simp add: onChat_def Let_def Inv_leaveRoom split: option.splits)

lemma Inv_onFind: "Inv s \<Longrightarrow> clients s w \<noteq> None \<Longrightarrow> Inv (onFind w g l now newId clk s)"
  by (simp add: onFind_def Inv_tryMatch Inv_enqueueFind)

lemma Inv_onMessage: "Inv s \<Longrightarrow> Inv (onMessage w raw now newId clk s)"
  by (auto simp: onMessage_def Inv_onCancel Inv_onLeave Inv_onChat Inv_onFind
      split: option.splits msg.splits)

lemma Inv_tick: "Inv s \<Longrightarrow> Inv (tick newId clk s)"
  by (simp add: tick_def Inv_tryMatch Inv_purge)

lemma Inv_onClose:
  assumes inv: "Inv s"
  shows "Inv (onClose w s)"
proof -
  define s1 where "s1 = removeFromQueue w s"
  define s2 where "s2 = leaveRoom w s1"
  have c: "onClose w s = s2\<lparr>clients := (clients s2)(w := None)\<rparr>"
    by (simp add: onClose_def Let_def s1_def s2_def)
  have i1: "Inv s1" and np1: "\<not> inPool s1 w"
    unfolding s1_def using inv by (rule Inv_removeFromQueue)+
  have i2: "Inv s2" unfolding s2_def using i1 by (rule Inv_leaveRoom)
  have np2: "\<not> inPool s2 w" using np1 by (simp add: s2_def inPool_def)
  have "\<forall>m. clients s2 w = Some m \<longrightarrow> roomId m = None"
    unfolding s2_def by (auto dest: leaveRoom_cleared)
  with i2 have nr2: "\<not> inRoom s2 w"
    by (intro not_inRoom_no_roomId) (simp_all add: Inv_def)
  show ?thesis
    unfolding c
  proof (rule Inv_shrink [OF i2])
    let ?s' = "s2\<lparr>clients := (clients s2)(w := None)\<rparr>"
    from i2 show "distinct (map ws (queue ?s'))"
      by (simp add: Inv_def queueOk_def)
    show "set (queue ?s') \<subseteq> set (queue s2)" by simp
    show "\<forall>r. rooms ?s' r = rooms s2 r \<or> rooms ?s' r = None" by simp
    from np2 nr2
    show "\<forall>v. map_option roomId (clients ?s' v) = map_option roomId (clients s2 v) \<or>
      (\<not> inRoom ?s' v \<and> (inPool ?s' v \<longrightarrow> clients ?s' v \<noteq> None))"
      by (simp add: inRoom_def inPool_def)
    from i2 show "statesOk ?s'"
      by (simp add: Inv_def statesOk_def)
  qed
qed

lemma Inv_onConnection:
  assumes inv: "Inv s" and new: "clients s w = None"
  shows "Inv (onConnection w i s)"
proof -
  let ?m = "\<lparr>cid = i, roomId = None, state = ''idle'',
             mprefs = \<lparr>gender = JStr ''any'', level = JStr ''any''\<rparr>\<rparr>"
  let ?s' = "s\<lparr>clients := (clients s)(w \<mapsto> ?m)\<rparr>"
  from inv have q: "queueOk s" and r: "roomsOk s" and st: "statesOk s"
    by (simp_all add: Inv_def)
  have "\<not> inRoom s w"
    using r new by (intro not_inRoom_no_roomId) simp_all
  have "Inv ?s'"
  proof (rule Inv_shrink [OF inv])
    from q show "distinct (map ws (queue ?s'))" by (simp add: queueOk_def)
    show "set (queue ?s') \<subseteq> set (queue s)" by simp
    show "\<forall>r. rooms ?s' r = rooms s r \<or> rooms ?s' r = None" by simp
    from \<open>\<not> inRoom s w\<close>
    show "\<forall>v. map_option roomId (clients ?s' v) = map_option roomId (clients s v) \<or>
      (\<not> inRoom ?s' v \<and> (inPool ?s' v \<longrightarrow> clients ?s' v \<noteq> None))"
      by (simp add: inRoom_def)
    from st show "statesOk ?s'" by (simp add: statesOk_def)
  qed
  then show ?thesis by (simp add: onConnection_def)
qed

lemma Inv_init: "Inv init"
  by (simp add: Inv_def queueOk_def roomsOk_def statesOk_def init_def)

lemma Inv_ready: "Inv (s\<lparr>ready := f\<rparr>) = Inv s"
  by (rule Inv_eq) simp_all

lemma Inv_step: "Inv s \<Longrightarrow> enabled e s \<Longrightarrow> Inv (step e s)"
proof (cases e)
  case (Connection w i)
  assume "Inv s" "enabled e s"
  with Connection have "Inv (s\<lparr>ready := (ready s)(w := True)\<rparr>)"
    "clients (s\<lparr>ready := (ready s)(w := True)\<rparr>) w = None"
    by (simp_all add: Inv_ready)
  then have "Inv (onConnection w i (s\<lparr>ready := (ready s)(w := True)\<rparr>))"
    by (rule Inv_onConnection)
  with Connection show ?thesis by simp
qed (simp_all add: Inv_onMessage Inv_onClose Inv_tick Inv_ready)

lemma reachable_Inv: "reachable s \<Longrightarrow> Inv s"
  by (induction rule: reachable.induct) (simp_all add: Inv_init Inv_step)

lemma Inv_exclusive:
  assumes "Inv s"
  shows "\<not> (inPool s w \<and> inRoom s w)"
proof
  assume a: "inPool s w \<and> inRoom s w"
  then obtain r rm where "rooms s r = Some rm" "room_a rm = w \<or> room_b rm = w"
    by (auto simp: inRoom_def)
  with assms have "memberOk s r w" by (auto simp: Inv_def roomsOk_def)
  with a show False by (simp add: memberOk_def)
qed

lemma leaveRoom_rooms_kept: "rooms (leaveRoom w s) r = rooms s r \<or> rooms (leaveRoom w s) r = None"
  by (simp add: leaveRoom_rooms split: option.splits)

lemma enqueueFind_rooms_kept:
  "rooms (enqueueFind w g l now s) r = rooms s r \<or> rooms (enqueueFind w g l now s) r = None"
  using leaveRoom_rooms_kept [of w s r] by (simp add: enqueueFind_def Let_def)

lemma onChat_rooms_kept: "rooms (onChat w t s) r = rooms s r \<or> rooms (onChat w t s) r = None"
  by (simp add: onChat_def Let_def leaveRoom_rooms split: option.splits)

lemma onLeave_rooms_kept: "rooms (onLeave w s) r = rooms s r \<or> rooms (onLeave w s) r = None"
  using leaveRoom_rooms_kept [of w s r] by (simp add: onLeave_def Let_def)

lemma onClose_rooms_kept: "rooms (onClose w s) r = rooms s r \<or> rooms (onClose w s) r = None"
  using leaveRoom_rooms_kept [of w "removeFromQueue w s" r] by (simp add: onClose_def Let_def)

lemma onMessage_rooms_kept:
  assumes "\<not> (\<exists>g l. raw = Some (Find g l) \<and> clients s w \<noteq> None)"
  shows "rooms (onMessage w raw now newId clk s) r = rooms s r \<or>
         rooms (onMessage w raw now newId clk s) r = None"
proof (cases raw)
  case None
  then show ?thesis by (simp add: onMessage_def)
next
  case (Some m)
  show ?thesis
  proof (cases "clients s w")
    case None
    with Some show ?thesis by (simp add: onMessage_def)
  next
    case (Some c)
    note reg = this
    show ?thesis
    proof (cases m)
      case (Find g l)
      with assms \<open>raw = Some m\<close> reg show ?thesis by simp
    next
      case Cancel
      with \<open>raw = Some m\<close> reg show ?thesis by (simp add: onMessage_def onCancel_def Let_def)
    next
      case (Chat t)
      with \<open>raw = Some m\<close> reg onChat_rooms_kept [of w t s r] show ?thesis
        by (simp add: onMessage_def)
    next
      case Leave
      with \<open>raw = Some m\<close> reg onLeave_rooms_kept [of w s r] show ?thesis
        by (simp add: onMessage_def)
    next
      case Other
      with \<open>raw = Some m\<close> reg show ?thesis by (simp add: onMessage_def)
    qed
  qed
qed

lemma tryMatch_new_room:
  assumes inv: "Inv s"
    and rm: "rooms (tryMatch newId clk s) r = Some rm"
    and new: "rooms s r \<noteq> Some rm"
  shows "chatting (tryMatch newId clk s) r (room_a rm) \<and>
         chatting (tryMatch newId clk s) r (room_b rm)"
proof (cases "scan clk (ready s) (queue s)")
  case None
  with rm new show ?thesis by (simp add: tryMatch_None)
next
  case (Some b)
  obtain i j t where "b = ((i, j), t)" by (metis surj_pair)
  with Some have sc: "scan clk (ready s) (queue s) = Some ((i, j), t)" by simp
  let ?A = "queue s ! i" and ?B = "queue s ! j"
  from inv have q: "queueOk s" by (simp add: Inv_def)
  then have d: "distinct (map ws (queue s))" by (simp add: queueOk_def)
  note pf = match_pair_facts [OF d sc]
  note cl = tryMatch_clients [OF sc pf(1)]
  have r: "r = newId"
  proof (rule ccontr)
    assume "r \<noteq> newId"
    with rm have "rooms s r = Some rm" by (simp add: tryMatch_Some_fields(2) [OF sc])
    with new show False by simp
  qed
  with rm have rmv: "rm = \<lparr>room_a = ws ?A, room_b = ws ?B\<rparr>"
    by (simp add: tryMatch_Some_fields(2) [OF sc])
  have ch: "chatting (tryMatch newId clk s) newId (ws x)" if "x = ?A \<or> x = ?B" for x
  proof -
    from that pf(3,4) have "x \<in> set (queue s)" by auto
    with q obtain m where m: "clients s (ws x) = Some m" by (auto simp: queueOk_def)
    from that have "clients (tryMatch newId clk s) (ws x) = map_option (to_chat newId) (clients s (ws x))"
      by (auto simp: cl)
    with m have "clients (tryMatch newId clk s) (ws x) = Some (to_chat newId m)" by simp
    then show ?thesis by (simp add: chatting_def to_chat_def)
  qed
  from ch [of ?A] ch [of ?B] show ?thesis by (simp add: r rmv)
qed

lemma step_new_room:
  assumes inv: "Inv s" and en: "enabled e s"
    and rm: "rooms (step e s) r = Some rm" and new: "rooms s r \<noteq> Some rm"
  shows "chatting (step e s) r (room_a rm) \<and> chatting (step e s) r (room_b rm)"
proof (cases e)
  case (Connection w i)
  with rm new show ?thesis by (simp add: onConnection_def)
next
  case (Message w raw now newId clk)
  show ?thesis
  proof (cases "\<exists>g l. raw = Some (Find g l) \<and> clients s w \<noteq> None")
    case True
    then obtain g l where raw: "raw = Some (Find g l)" and reg: "clients s w \<noteq> None"
      by blast
    let ?pre = "enqueueFind w g l now s"
    from reg obtain c where "clients s w = Some c" by auto
    with raw Message have st: "step e s = tryMatch newId clk ?pre"
      by (simp add: onMessage_def onFind_def)
    have i: "Inv ?pre" using inv reg by (rule Inv_enqueueFind)
    from rm st have r1: "rooms (tryMatch newId clk ?pre) r = Some rm" by simp
    from new enqueueFind_rooms_kept [of w g l now s r] have r2: "rooms ?pre r \<noteq> Some rm"
      by auto
    from tryMatch_new_room [OF i r1 r2] show ?thesis by (simp only: st)
  next
    case False
    from onMessage_rooms_kept [OF False, of now newId clk r] Message rm
    have "rooms s r = Some rm" by auto
    with new show ?thesis by simp
  qed
next
  case (Close w)
  with rm onClose_rooms_kept [of w s r] have "rooms s r = Some rm" by auto
  with new show ?thesis by simp
next
  case (Tick newId clk)
  have i: "Inv (purge s)" using inv by (rule Inv_purge)
  from rm Tick have r1: "rooms (tryMatch newId clk (purge s)) r = Some rm"
    by (simp add: tick_def)
  from new have r2: "rooms (purge s) r \<noteq> Some rm" by (simp add: purge_def)
  from tryMatch_new_room [OF i r1 r2] Tick show ?thesis by (simp add: tick_def)
next
  case (Drop w)
  with rm new show ?thesis by simp
qed

text \<open>
  C2. In every state the server can reach, the state of every registered connection is
  one of the three strings the source assigns, \<open>idle\<close>, \<open>searching\<close> and \<open>chat\<close> (the
  last is the state the specification calls chatting); no socket has a queue entry and
  is a member of a room at once; and whenever an event stores a room that was not
  there before, which only a match does, the records of both its members are in state
  \<open>chat\<close> and point to that room.
\<close>

theorem reachable_states_exclusive:
  assumes "reachable s"
  shows "(\<forall>w m. clients s w = Some m \<longrightarrow>
            state m = ''idle'' \<or> state m = ''searching'' \<or> state m = ''chat'') \<and>
         (\<forall>w. \<not> (inPool s w \<and> inRoom s w)) \<and>
         (\<forall>e r rm. enabled e s \<and> rooms (step e s) r = Some rm \<and> rooms s r \<noteq> Some rm \<longrightarrow>
            chatting (step e s) r (room_a rm) \<and> chatting (step e s) r (room_b rm))"
proof (intro conjI allI impI)
  from assms have inv: "Inv s" by (rule reachable_Inv)
  {
    fix w m assume "clients s w = Some m"
    with inv show "state m = ''idle'' \<or> state m = ''searching'' \<or> state m = ''chat''"
      by (simp add: Inv_def statesOk_def)
  next
    fix w show "\<not> (inPool s w \<and> inRoom s w)"
      using inv by (rule Inv_exclusive)
  next
    fix e r rm
    assume a: "enabled e s \<and> rooms (step e s) r = Some rm \<and> rooms s r \<noteq> Some rm"
    then have "chatting (step e s) r (room_a rm) \<and> chatting (step e s) r (room_b rm)"
      by (intro step_new_room [OF inv]) simp_all
    then show "chatting (step e s) r (room_a rm)" "chatting (step e s) r (room_b rm)"
      by simp_all
  }
qed

theorem reachable_states_exclusive_witness:
  "reachable s_wait \<and> reachable s_chat \<and>
   map ws (queue s_wait) = [1] \<and> \<not> inRoom s_wait 1 \<and>
   rooms s_wait 31 = None \<and>
   rooms s_chat 31 = Some \<lparr>room_a = 1, room_b = 2\<rparr> \<and>
   \<not> inPool s_chat 1 \<and> \<not> inPool s_chat 2 \<and>
   chatting s_chat 31 1 \<and> chatting s_chat 31 2 \<and>
   map_option state (clients s_chat 1) = Some ''chat'' \<and>
   map_option state (clients s_chat 2) = Some ''chat''"
proof -
  have e1: "enabled (Connection 1 20) init"
    by (simp add: init_def)
  have e2: "enabled (Connection 2 21) (step (Connection 1 20) init)"
    by (simp add: init_def onConnection_def)
  have r2: "reachable s_two"
    unfolding s_two_def by (intro reachable_step reachable_init e1 e2)
  have rw: "reachable s_wait"
    unfolding s_wait_def using r2 by (rule reachable_step) simp
  have sc: "s_chat = step (Message 2 (Some (Find JUndefined (JStr ''''))) 3000 31 clk0) s_wait"
    by (simp add: s_chat_def)
  have rc: "reachable s_chat"
    unfolding sc using rw by (rule reachable_step) simp
  have q: "map ws (queue s_wait) = [1]" "rooms s_wait 31 = None"
    "rooms s_chat 31 = Some \<lparr>room_a = 1, room_b = 2\<rparr>" "queue s_chat = []"
    "map_option state (clients s_chat 1) = Some ''chat''"
    "map_option state (clients s_chat 2) = Some ''chat''"
    by code_simp+
  from q(1) have p: "inPool s_wait 1"
    by (cases "queue s_wait") (auto simp: inPool_def)
  note th = reachable_states_exclusive [OF rw]
  from th [THEN conjunct2, THEN conjunct1, rule_format, of 1] p have nr: "\<not> inRoom s_wait 1"
    by simp
  have en: "enabled (Message 2 (Some (Find JUndefined (JStr ''''))) 3000 31 clk0) s_wait"
    by simp
  from q(2,3) have new: "rooms (step (Message 2 (Some (Find JUndefined (JStr ''''))) 3000 31 clk0) s_wait) 31 =
      Some \<lparr>room_a = 1, room_b = 2\<rparr> \<and>
    rooms s_wait 31 \<noteq> Some \<lparr>room_a = 1, room_b = 2\<rparr>"
    by (simp only: sc [symmetric]) simp
  from th [THEN conjunct2, THEN conjunct2, rule_format, OF conjI [OF en new]]
  have ch: "chatting s_chat 31 (room_a \<lparr>room_a = 1, room_b = 2\<rparr>) \<and>
            chatting s_chat 31 (room_b \<lparr>room_a = 1, room_b = 2\<rparr>)"
    by (simp only: sc [symmetric])
  from q(4) have np: "\<not> inPool s_chat 1" "\<not> inPool s_chat 2"
    by (simp_all add: inPool_def)
  from ch have ch': "chatting s_chat 31 1" "chatting s_chat 31 2"
    by simp_all
  from rw rc q(1,2,3,5,6) nr ch' np show ?thesis
    by (intro conjI)
qed

end
